theory Spec2Isabelle
  imports Main "HOL-Library.AList" "HOL-Library.Char_ord" "HOL-Library.List_Lexorder"
    "HOL-Library.Product_Lexorder" "HOL-Library.Sublist"
begin

section \<open>Board topology\<close>

text \<open>
  The constructor of \<^verbatim>\<open>PeterNorvigAlgorithm\<close> builds the fixed structure of the board.
  A square is a two-character string (row letter followed by column digit), a unit is a
  list of nine squares, and the peers of a square are kept in a Python \<^verbatim>\<open>set\<close>.
  \<^verbatim>\<open>units\<close> and \<^verbatim>\<open>peers\<close> are dicts with the 81 squares as keys, and the methods only
  ever look up squares; the functions below are given by the same expressions for every
  string, which makes them empty outside the squares.
\<close>

definition digits :: string where
  "digits = ''123456789''"

definition rows :: string where
  "rows = ''ABCDEFGHI''"

definition cols :: string where
  "cols = digits"

text \<open>\<^verbatim>\<open>[row + col for row in Rows for col in Cols]\<close>\<close>

definition crossProduct :: "string \<Rightarrow> string \<Rightarrow> string list" where
  "crossProduct Rows Cols = concat (map (\<lambda>row. map (\<lambda>col. [row, col]) Cols) Rows)"

definition squares :: "string list" where
  "squares = crossProduct rows cols"

definition unitlist :: "string list list" where
  "unitlist = map (\<lambda>col. crossProduct rows [col]) cols
            @ map (\<lambda>row. crossProduct [row] cols) rows
            @ concat (map (\<lambda>rs. map (\<lambda>cs. crossProduct rs cs) [''123'', ''456'', ''789''])
                          [''ABC'', ''DEF'', ''GHI''])"

text \<open>\<^verbatim>\<open>units[square] = [unit for unit in unitlist if square in unit]\<close>\<close>

definition units :: "string \<Rightarrow> string list list" where
  "units square = filter (\<lambda>unit. square \<in> set unit) unitlist"

text \<open>\<^verbatim>\<open>peers[square] = set(sum(units[square], [])) - set([square])\<close>\<close>

definition peers :: "string \<Rightarrow> string set" where
  "peers square = set (concat (units square)) - {square}"

text \<open>
  Python gives no order for iterating a \<^verbatim>\<open>set\<close>, so the loop over
  \<^verbatim>\<open>self.peers[square]\<close> in \<^verbatim>\<open>reviewNextDigit\<close> may visit the peers in any order.
  The model takes that order as a parameter \<open>po\<close>; \<open>iterates_peers po\<close> says that it
  enumerates exactly the peer set. \<open>peers_list\<close> is one such order.
\<close>

type_synonym peer_order = "string \<Rightarrow> string list"

definition iterates_peers :: "peer_order \<Rightarrow> bool" where
  "iterates_peers po = (\<forall>square. set (po square) = peers square)"

definition peers_list :: peer_order where
  "peers_list square = filter (\<lambda>s. s \<noteq> square) (remdups (concat (units square)))"

section \<open>Candidate maps\<close>

text \<open>
  \<^verbatim>\<open>values\<close> is a dict from square to the string of digits still possible there. It is
  modelled as an association list; every dict the class builds has exactly the 81 squares
  as keys, in the order of \<open>squares\<close>. \<open>candidates values square\<close> is
  \<^verbatim>\<open>values[square]\<close> (the empty string stands for a key that is absent, which never
  happens for a square), \<open>AList.update\<close> is the assignment \<^verbatim>\<open>values[square] = ...\<close>,
  and \<open>replace s digit\<close> is \<^verbatim>\<open>s.replace(digit, '')\<close> for a one-character \<^verbatim>\<open>digit\<close>.
  The dict is mutated in place by the propagation methods and thrown away as soon as one
  of them returns \<^verbatim>\<open>False\<close>; the model passes the map along and returns \<open>None\<close> for
  \<^verbatim>\<open>False\<close>.
\<close>

type_synonym "values" = "(string \<times> string) list"

definition candidates :: "values \<Rightarrow> string \<Rightarrow> string" where
  "candidates values square = (case map_of values square of Some ds \<Rightarrow> ds | None \<Rightarrow> [])"

definition replace :: "string \<Rightarrow> char \<Rightarrow> string" where
  "replace s digit = filter (\<lambda>c. c \<noteq> digit) s"

definition weight :: "values \<Rightarrow> nat" where
  "weight values = sum_list (map (\<lambda>(square, ds). length ds) values)"

section \<open>Constraint propagation\<close>

text \<open>
  The four methods \<^verbatim>\<open>eliminate\<close>, \<^verbatim>\<open>reviewNextDigit\<close>, \<^verbatim>\<open>reviewUnit\<close> and the
  assignment call each other. The three \<^verbatim>\<open>all(...)\<close>/\<^verbatim>\<open>for\<close> loops become the list
  recursions \<open>eliminate_digits\<close> (over \<^verbatim>\<open>other_values\<close>), \<open>eliminate_peers\<close> (over
  \<^verbatim>\<open>self.peers[square]\<close>) and \<open>reviewUnit_units\<close> (over \<^verbatim>\<open>self.units[square]\<close>); each
  stops at the first \<^verbatim>\<open>False\<close>. \<^verbatim>\<open>reviewNextDigit\<close> returns \<^verbatim>\<open>True\<close> or \<^verbatim>\<open>False\<close>
  in the source; here \<open>Some\<close> carries the map it has mutated.
\<close>

text \<open>
  Modelled from the spec: \<open>assign\<close>. \<^verbatim>\<open>reviewUnit\<close> and \<^verbatim>\<open>deepSearch\<close> call
  \<^verbatim>\<open>self.assign\<close>, which this class does not define (it would come from the base class
  \<^verbatim>\<open>Algorithm\<close>, which is not part of the source at hand). The specification describes
  Assign as eliminating every other candidate digit of the cell via Eliminate, one at a
  time, which is what \<^verbatim>\<open>assignPosibleValues\<close> below does. The other six functions are
  the source's.
\<close>

function
  assign :: "peer_order \<Rightarrow> values \<Rightarrow> string \<Rightarrow> char \<Rightarrow> values option" and
  eliminate_digits :: "peer_order \<Rightarrow> values \<Rightarrow> string \<Rightarrow> string \<Rightarrow> values option" and
  eliminate :: "peer_order \<Rightarrow> values \<Rightarrow> string \<Rightarrow> char \<Rightarrow> values option" and
  reviewNextDigit :: "peer_order \<Rightarrow> values \<Rightarrow> string \<Rightarrow> values option" and
  eliminate_peers :: "peer_order \<Rightarrow> values \<Rightarrow> string list \<Rightarrow> char \<Rightarrow> values option" and
  reviewUnit :: "peer_order \<Rightarrow> values \<Rightarrow> string \<Rightarrow> char \<Rightarrow> values option" and
  reviewUnit_units :: "peer_order \<Rightarrow> values \<Rightarrow> string list list \<Rightarrow> char \<Rightarrow> values option"
where
  "assign po values square digit =
     eliminate_digits po values square (replace (candidates values square) digit)"
| "eliminate_digits po values square [] = Some values"
| "eliminate_digits po values square (nextDigit # other_values) =
     (case eliminate po values square nextDigit of
        None \<Rightarrow> None
      | Some values' \<Rightarrow> eliminate_digits po values' square other_values)"
| "eliminate po values square digit =
     (if digit \<notin> set (candidates values square) then Some values
      else (case reviewNextDigit po
                   (AList.update square (replace (candidates values square) digit) values) square of
              None \<Rightarrow> None
            | Some values' \<Rightarrow> reviewUnit po values' square digit))"
| "reviewNextDigit po values square =
     (case candidates values square of
        [] \<Rightarrow> None
      | [nextDigit] \<Rightarrow> eliminate_peers po values (po square) nextDigit
      | _ \<Rightarrow> Some values)"
| "eliminate_peers po values [] nextDigit = Some values"
| "eliminate_peers po values (nextSquare # rest) nextDigit =
     (case eliminate po values nextSquare nextDigit of
        None \<Rightarrow> None
      | Some values' \<Rightarrow> eliminate_peers po values' rest nextDigit)"
| "reviewUnit po values square digit = reviewUnit_units po values (units square) digit"
| "reviewUnit_units po values [] digit = Some values"
| "reviewUnit_units po values (unit # rest) digit =
     (case filter (\<lambda>square. digit \<in> set (candidates values square)) unit of
        [] \<Rightarrow> None
      | [place] \<Rightarrow>
          (case assign po values place digit of
             None \<Rightarrow> None
           | Some values' \<Rightarrow> reviewUnit_units po values' rest digit)
      | _ \<Rightarrow> reviewUnit_units po values rest digit)"
  by pat_completeness auto

text \<open>
  Termination. Every call of \<open>eliminate\<close> that does anything removes a digit, so the
  total number of candidates (\<open>weight\<close>) goes down; the calls in between are ranked.
  The recursion is nested (a loop continues with the map its first call returned), so
  that a successful call does not increase the weight is shown first, on the domain.
\<close>

lemma weight_update:
  "map_of al k = Some v \<Longrightarrow> weight (AList.update k v' al) + length v = weight al + length v'"
  by (induction al) (auto simp: weight_def)

lemma candidates_update [simp]:
  "candidates (AList.update k v al) k' = (if k' = k then v else candidates al k')"
  by (simp add: candidates_def update_conv')

lemma length_replace: "digit \<in> set ds \<Longrightarrow> length (replace ds digit) < length ds"
  unfolding replace_def by (induction ds) (auto simp: less_Suc_eq_le)

lemma weight_remove:
  assumes "digit \<in> set (candidates values square)"
  shows "weight (AList.update square (replace (candidates values square) digit) values)
           < weight values"
proof -
  from assms obtain ds where ds: "map_of values square = Some ds"
    by (cases "map_of values square") (auto simp: candidates_def)
  then have c: "candidates values square = ds"
    by (simp add: candidates_def)
  from weight_update [OF ds, of "replace ds digit"] length_replace [of digit ds] assms c
  show ?thesis by simp
qed

definition shrinks :: "values \<Rightarrow> values option \<Rightarrow> bool" where
  "shrinks values r =
     (case r of None \<Rightarrow> True | Some values' \<Rightarrow> weight values' \<le> weight values)"

lemma shrinks_simps [simp]: "shrinks values None" "shrinks values (Some values)"
  by (simp_all add: shrinks_def)

lemma shrinks_bind:
  "shrinks values r \<Longrightarrow> (\<And>x. r = Some x \<Longrightarrow> shrinks x (g x)) \<Longrightarrow>
   shrinks values (case r of None \<Rightarrow> None | Some x \<Rightarrow> g x)"
  by (auto simp: shrinks_def split: option.splits)

lemma shrinks_less:
  "weight values1 \<le> weight values \<Longrightarrow> shrinks values1 r \<Longrightarrow> shrinks values r"
  by (auto simp: shrinks_def split: option.splits)

lemma shrinksD:
  "shrinks values r \<Longrightarrow> r = Some values' \<Longrightarrow> weight values' \<le> weight values"
  by (simp add: shrinks_def)

lemmas propagate_pinduct =
  assign_eliminate_digits_eliminate_reviewNextDigit_eliminate_peers_reviewUnit_reviewUnit_units.pinduct

abbreviation (input) propagate_dom where
  "propagate_dom \<equiv>
     assign_eliminate_digits_eliminate_reviewNextDigit_eliminate_peers_reviewUnit_reviewUnit_units_dom"

lemma weight_partial:
  "propagate_dom (Inl (Inl (po, values, square, digit))) \<Longrightarrow>
     shrinks values (assign po values square digit)"
  "propagate_dom (Inl (Inr (Inl (po, values, square, ds)))) \<Longrightarrow>
     shrinks values (eliminate_digits po values square ds)"
  "propagate_dom (Inl (Inr (Inr (po, values, square, digit)))) \<Longrightarrow>
     shrinks values (eliminate po values square digit)"
  "propagate_dom (Inr (Inl (Inl (po, values, square)))) \<Longrightarrow>
     shrinks values (reviewNextDigit po values square)"
  "propagate_dom (Inr (Inl (Inr (po, values, ps, digit)))) \<Longrightarrow>
     shrinks values (eliminate_peers po values ps digit)"
  "propagate_dom (Inr (Inr (Inl (po, values, square, digit)))) \<Longrightarrow>
     shrinks values (reviewUnit po values square digit)"
  "propagate_dom (Inr (Inr (Inr (po, values, us, digit)))) \<Longrightarrow>
     shrinks values (reviewUnit_units po values us digit)"
proof (induct rule: propagate_pinduct)
  case (1 po "values" square digit)
  then show ?case by (simp add: assign.psimps)
next
  case (2 po "values" square)
  then show ?case by (simp add: eliminate_digits.psimps)
next
  case (3 po "values" square nextDigit other_values)
  then show ?case
    by (simp add: eliminate_digits.psimps shrinks_bind)
next
  case (4 po "values" square digit)
  show ?case
  proof (cases "digit \<in> set (candidates values square)")
    case True
    let ?v1 = "AList.update square (replace (candidates values square) digit) values"
    have "shrinks ?v1 (case reviewNextDigit po ?v1 square of None \<Rightarrow> None
                       | Some values' \<Rightarrow> reviewUnit po values' square digit)"
      using 4 True by (intro shrinks_bind) auto
    moreover have "weight ?v1 \<le> weight values"
      using weight_remove [OF True] by simp
    ultimately show ?thesis
      using True 4(1) by (simp add: eliminate.psimps shrinks_less)
  next
    case False
    with 4(1) show ?thesis by (simp add: eliminate.psimps)
  qed
next
  case (5 po "values" square)
  then show ?case
    by (auto simp: reviewNextDigit.psimps split: list.splits)
next
  case (6 po "values" nextDigit)
  then show ?case by (simp add: eliminate_peers.psimps)
next
  case (7 po "values" nextSquare rest nextDigit)
  then show ?case
    by (simp add: eliminate_peers.psimps shrinks_bind)
next
  case (8 po "values" square digit)
  then show ?case by (simp add: reviewUnit.psimps)
next
  case (9 po "values" digit)
  then show ?case by (simp add: reviewUnit_units.psimps)
next
  case (10 po "values" unit rest digit)
  then show ?case
    by (auto simp: reviewUnit_units.psimps shrinks_bind split: list.splits)
qed

definition call_measure ::
  "((peer_order \<times> values \<times> string \<times> char) +
    (peer_order \<times> values \<times> string \<times> string) +
    (peer_order \<times> values \<times> string \<times> char)) +
   ((peer_order \<times> values \<times> string) +
    (peer_order \<times> values \<times> string list \<times> char)) +
   ((peer_order \<times> values \<times> string \<times> char) +
    (peer_order \<times> values \<times> string list list \<times> char)) \<Rightarrow> nat \<times> nat \<times> nat"
where
  "call_measure =
     case_sum
       (case_sum (\<lambda>(po, values, square, digit). (weight values, 2, 0))
          (case_sum (\<lambda>(po, values, square, ds). (weight values, 1, length ds))
                    (\<lambda>(po, values, square, digit). (weight values, 0, 0))))
       (case_sum
          (case_sum (\<lambda>(po, values, square). (weight values, 2, 0))
                    (\<lambda>(po, values, ps, digit). (weight values, 1, length ps)))
          (case_sum (\<lambda>(po, values, square, digit). (weight values, 4, 0))
                    (\<lambda>(po, values, us, digit). (weight values, 3, length us))))"

termination assign
proof (relation "inv_image (less_than <*lex*> less_than <*lex*> less_than) call_measure",
       goal_cases)
  case 1
  show ?case by (intro wf_inv_image wf_lex_prod wf_less_than)
next
  case (2 po "values" square digit)
  show ?case by (simp add: call_measure_def)
next
  case (3 po "values" square nextDigit other_values)
  show ?case by (simp add: call_measure_def)
next
  case (4 po "values" square nextDigit other_values x2)
  then show ?case
    using shrinksD [OF weight_partial(3)] by (auto simp: le_less call_measure_def)
next
  case (5 po "values" square digit)
  then show ?case using weight_remove by (simp add: call_measure_def)
next
  case (6 po "values" square digit x2)
  then have "weight x2
      \<le> weight (AList.update square (replace (candidates values square) digit) values)"
    using shrinksD [OF weight_partial(4)] by blast
  with 6 show ?case
    using weight_remove [of digit "values" square]
    by (simp add: call_measure_def)
next
  case 7
  then show ?case by (simp add: call_measure_def)
next
  case 8
  then show ?case by (simp add: call_measure_def)
next
  case 9
  then show ?case
    using shrinksD [OF weight_partial(3)] by (auto simp: le_less call_measure_def)
next
  case 10
  then show ?case by (simp add: call_measure_def)
next
  case 11
  then show ?case by (simp add: call_measure_def)
next
  case 12
  then show ?case
    using shrinksD [OF weight_partial(1)] by (auto simp: le_less call_measure_def)
next
  case 13
  then show ?case by (simp add: call_measure_def)
qed

lemmas propagate_induct =
  assign_eliminate_digits_eliminate_reviewNextDigit_eliminate_peers_reviewUnit_reviewUnit_units.induct

declare assign.simps [simp del] eliminate.simps [simp del] reviewNextDigit.simps [simp del]
  reviewUnit.simps [simp del] reviewUnit_units.simps(2) [simp del]

text \<open>
  \<^verbatim>\<open>assignPosibleValues\<close>, as the source has it; \<^verbatim>\<open>parseGrid\<close> calls it for the givens.
\<close>

definition assignPosibleValues :: "peer_order \<Rightarrow> values \<Rightarrow> string \<Rightarrow> char \<Rightarrow> values option" where
  "assignPosibleValues po values square digit =
     (let other_values = replace (candidates values square) digit
      in eliminate_digits po values square other_values)"

section \<open>Parsing a grid\<close>

datatype error = AssertionError | ValueError | TypeError

text \<open>
  \<^verbatim>\<open>getGridValues\<close> keeps the characters of the grid that are digits 1-9, \<^verbatim>\<open>0\<close> or
  \<^verbatim>\<open>.\<close>, and asserts that 81 of them are left. The dict it returns is iterated by
  \<^verbatim>\<open>parseGrid\<close> in insertion order, the order of \<open>squares\<close>.
\<close>

definition getGridValues :: "string \<Rightarrow> error + (string \<times> char) list" where
  "getGridValues grid =
     (let chars = filter (\<lambda>eachChar. eachChar \<in> set digits \<or> eachChar \<in> set ''0.'') grid
      in if length chars = 81 then Inr (zip squares chars) else Inl AssertionError)"

fun parseGrid_items :: "peer_order \<Rightarrow> values \<Rightarrow> (string \<times> char) list \<Rightarrow> values option" where
  "parseGrid_items po values [] = Some values"
| "parseGrid_items po values ((square, digit) # rest) =
     (if digit \<in> set digits then
        (case assignPosibleValues po values square digit of
           None \<Rightarrow> None
         | Some values' \<Rightarrow> parseGrid_items po values' rest)
      else parseGrid_items po values rest)"

text \<open>\<^verbatim>\<open>dict((square, self.digits) for square in self.squares)\<close>\<close>

definition fresh_values :: "values" where
  "fresh_values = map (\<lambda>square. (square, digits)) squares"

definition parseGrid :: "peer_order \<Rightarrow> string \<Rightarrow> error + values option" where
  "parseGrid po grid =
     (case getGridValues grid of
        Inl e \<Rightarrow> Inl e
      | Inr items \<Rightarrow> Inr (parseGrid_items po fresh_values items))"

section \<open>Search\<close>

text \<open>
  \<^verbatim>\<open>min((len(values[s]), s) for s in squares if len(values[s]) > 1)\<close>: tuples are compared
  by length first and by the square's name second; \<^verbatim>\<open>min\<close> of an empty sequence raises
  \<^verbatim>\<open>ValueError\<close>.
\<close>

definition fewest :: "values \<Rightarrow> (nat \<times> string) option" where
  "fewest values =
     (case map (\<lambda>square. (length (candidates values square), square))
               (filter (\<lambda>square. length (candidates values square) > 1) squares) of
        [] \<Rightarrow> None
      | c # cs \<Rightarrow> Some (fold min cs c))"

text \<open>
  \<^verbatim>\<open>deepSearch\<close> hands \<^verbatim>\<open>validValues\<close> a generator that calls \<^verbatim>\<open>deepSearch\<close> again for
  each digit, on a copy of the map; \<^verbatim>\<open>validValues\<close> returns the first element that is not
  \<^verbatim>\<open>False\<close>. The two are one recursion, \<open>search\<close>: \<open>Inl\<close> is a call of \<^verbatim>\<open>deepSearch\<close>,
  \<open>Inr\<close> is the loop of \<^verbatim>\<open>validValues\<close> over the digits that are left. On a map with a
  repeated digit in a cell the source recurses for ever, so the result is an option and
  \<open>None\<close> means that the call does not return. \<^verbatim>\<open>values.copy()\<close> needs no counterpart:
  the model never mutates.
\<close>

partial_function (option) search ::
  "peer_order \<Rightarrow> values option + values \<times> string \<times> string \<Rightarrow> (error + values option) option"
where
  "search po call =
     (case call of
        Inl None \<Rightarrow> Some (Inr None)
      | Inl (Some values) \<Rightarrow>
          if \<forall>square \<in> set squares. length (candidates values square) = 1
          then Some (Inr (Some values))
          else (case fewest values of
                  None \<Rightarrow> Some (Inl ValueError)
                | Some (n, square) \<Rightarrow>
                    search po (Inr (values, square, candidates values square)))
      | Inr (values, square, []) \<Rightarrow> Some (Inr None)
      | Inr (values, square, digit # rest) \<Rightarrow>
          Option.bind (search po (Inl (assign po values square digit)))
            (\<lambda>element. case element of
               Inl e \<Rightarrow> Some (Inl e)
             | Inr None \<Rightarrow> search po (Inr (values, square, rest))
             | Inr (Some solution) \<Rightarrow> Some (Inr (Some solution))))"

definition deepSearch :: "peer_order \<Rightarrow> values option \<Rightarrow> (error + values option) option" where
  "deepSearch po values = search po (Inl values)"

definition validValues ::
  "peer_order \<Rightarrow> values \<Rightarrow> string \<Rightarrow> string \<Rightarrow> (error + values option) option" where
  "validValues po values square ds = search po (Inr (values, square, ds))"

definition solve :: "peer_order \<Rightarrow> string \<Rightarrow> (error + values option) option" where
  "solve po grid =
     (case parseGrid po grid of
        Inl e \<Rightarrow> Some (Inl e)
      | Inr values \<Rightarrow> deepSearch po values)"

section \<open>Reporting\<close>

text \<open>
  \<^verbatim>\<open>getMatrix\<close> sorts the items of the dict and collects the values; \<^verbatim>\<open>dict.items\<close>
  applied to \<^verbatim>\<open>False\<close> raises \<^verbatim>\<open>TypeError\<close>. \<^verbatim>\<open>convertStringToMatrix\<close> and
  \<^verbatim>\<open>solved\<close> belong to the base class and are parameters here. \<open>timeSolve\<close> is the body
  of the local function of \<^verbatim>\<open>solveSudoku\<close> without the clock: it returns what is stored
  in \<^verbatim>\<open>self.solution\<close> together with the flag it reports.
\<close>

definition dictList :: "values \<Rightarrow> string list" where
  "dictList values = map snd (sort values)"

definition getMatrix :: "(string list \<Rightarrow> 'm) \<Rightarrow> values option \<Rightarrow> error + 'm" where
  "getMatrix convertStringToMatrix values =
     (case values of
        None \<Rightarrow> Inl TypeError
      | Some dict \<Rightarrow> Inr (convertStringToMatrix (dictList dict)))"

definition timeSolve ::
  "peer_order \<Rightarrow> (string list \<Rightarrow> 'm) \<Rightarrow> (values option \<Rightarrow> bool) \<Rightarrow> string
     \<Rightarrow> (error + 'm \<times> bool) option" where
  "timeSolve po convertStringToMatrix solved grid =
     Option.bind (solve po grid)
       (\<lambda>r. case r of
          Inl e \<Rightarrow> Some (Inl e)
        | Inr values \<Rightarrow>
            (case getMatrix convertStringToMatrix values of
               Inl e \<Rightarrow> Some (Inl e)
             | Inr solution \<Rightarrow> Some (Inr (solution, solved values))))"

section \<open>Notions used to state the properties\<close>

text \<open>
  \<open>eliminations po values jobs values'\<close>: eliminating the (square, digit) pairs of
  \<open>jobs\<close> one at a time, each on the map the one before returned, succeeds every time
  and ends with \<open>values'\<close>. \<open>accepted\<close> is the alphabet of a grid string.
\<close>

inductive eliminations :: "peer_order \<Rightarrow> values \<Rightarrow> (string \<times> char) list \<Rightarrow> values \<Rightarrow> bool" where
  finished: "eliminations po values [] values"
| one_more: "eliminate po values square digit = Some values1 \<Longrightarrow>
         eliminations po values1 rest values2 \<Longrightarrow>
         eliminations po values ((square, digit) # rest) values2"

definition accepted :: "char \<Rightarrow> bool" where
  "accepted c = (c \<in> set digits \<or> c \<in> set ''0.'')"

text \<open>
  \<open>unit_checks po digit values us values'\<close>: going through the units \<open>us\<close> in turn,
  each has at least one square where \<open>digit\<close> is still a candidate, and wherever it
  has exactly one, assigning the digit to that square succeeds; \<open>values'\<close> is the map
  at the end.
\<close>

inductive unit_checks :: "peer_order \<Rightarrow> char \<Rightarrow> values \<Rightarrow> string list list \<Rightarrow> values \<Rightarrow> bool" where
  no_unit: "unit_checks po digit values [] values"
| one_place: "filter (\<lambda>square. digit \<in> set (candidates values square)) unit = [place] \<Longrightarrow>
     assign po values place digit = Some values1 \<Longrightarrow>
     unit_checks po digit values1 rest values2 \<Longrightarrow>
     unit_checks po digit values (unit # rest) values2"
| more_places: "1 < length (filter (\<lambda>square. digit \<in> set (candidates values square)) unit) \<Longrightarrow>
     unit_checks po digit values rest values2 \<Longrightarrow>
     unit_checks po digit values (unit # rest) values2"

text \<open>
  \<open>ensures R values r\<close>: if the call returned a map, it is related to the map it
  started from. \<open>narrows values values'\<close>: the keys are the same, every candidate string
  of \<open>values'\<close> is a subsequence of the one in \<open>values\<close>, and no square that had a
  candidate has lost them all.
\<close>

definition ensures :: "(values \<Rightarrow> values \<Rightarrow> bool) \<Rightarrow> values \<Rightarrow> values option \<Rightarrow> bool" where
  "ensures R values r = (case r of None \<Rightarrow> True | Some values' \<Rightarrow> R values values')"

definition narrows :: "values \<Rightarrow> values \<Rightarrow> bool" where
  "narrows values values' =
     (map fst values' = map fst values \<and>
      (\<forall>square. subseq (candidates values' square) (candidates values square) \<and>
                (candidates values square \<noteq> [] \<longrightarrow> candidates values' square \<noteq> [])))"

text \<open>
  \<open>settled_apart P values\<close>: a square outside \<open>P\<close> that is down to one digit has
  that digit removed from all its peers. \<open>P\<close> holds the squares whose peers are still
  being worked on while the propagation runs; between calls it is empty.
\<close>

definition settled_apart :: "string set \<Rightarrow> values \<Rightarrow> bool" where
  "settled_apart P values =
     (\<forall>square digit. square \<notin> P \<longrightarrow> candidates values square = [digit] \<longrightarrow>
        (\<forall>peer \<in> peers square. digit \<notin> set (candidates values peer)))"

definition keeps_apart :: "string set \<Rightarrow> values \<Rightarrow> values option \<Rightarrow> bool" where
  "keeps_apart P values r =
     (case r of None \<Rightarrow> True
      | Some values' \<Rightarrow> settled_apart P values \<longrightarrow> settled_apart P values')"

text \<open>
  \<open>solved_map\<close> is the test with which \<^verbatim>\<open>deepSearch\<close> stops: every square has one
  candidate. \<open>search_sound call r\<close> is what a successful result of the search is shown
  to satisfy, for either kind of call.
\<close>

definition solved_map :: "values \<Rightarrow> bool" where
  "solved_map values = (\<forall>square \<in> set squares. length (candidates values square) = 1)"

definition search_sound :: "values option + values \<times> string \<times> string \<Rightarrow> error + values option \<Rightarrow> bool" where
  "search_sound call r =
     (case r of
        Inr (Some m) \<Rightarrow>
          (case call of
             Inl None \<Rightarrow> False
           | Inl (Some v) \<Rightarrow> narrows v m \<and> solved_map m \<and> (settled_apart {} v \<longrightarrow> settled_apart {} m)
           | Inr (v, s, ds) \<Rightarrow> narrows v m \<and> solved_map m \<and> (settled_apart {} v \<longrightarrow> settled_apart {} m))
      | _ \<Rightarrow> True)"

text \<open>
  \<open>is_solution \<sigma>\<close>: the assignment \<open>\<sigma>\<close> of a digit to every square puts all nine digits
  into every unit. \<open>fits \<sigma> values\<close>: the map has only digits as candidates and still
  allows \<open>\<sigma>\<close> in every square. \<open>succeeds \<sigma> r\<close>: the call returned a map that fits.
\<close>

definition is_solution :: "(string \<Rightarrow> char) \<Rightarrow> bool" where
  "is_solution \<sigma> = (\<forall>unit \<in> set unitlist. \<sigma> ` set unit = set digits)"

definition fits :: "(string \<Rightarrow> char) \<Rightarrow> values \<Rightarrow> bool" where
  "fits \<sigma> values =
     ((\<forall>square. set (candidates values square) \<subseteq> set digits) \<and>
      (\<forall>square \<in> set squares. \<sigma> square \<in> set (candidates values square)))"

definition succeeds :: "(string \<Rightarrow> char) \<Rightarrow> values option \<Rightarrow> bool" where
  "succeeds \<sigma> r = (\<exists>values'. r = Some values' \<and> fits \<sigma> values')"

text \<open>
  \<open>good values\<close>: every square has a candidate, and no digit twice. On such maps the
  search terminates.
\<close>

definition good :: "values \<Rightarrow> bool" where
  "good values =
     (\<forall>square \<in> set squares. candidates values square \<noteq> [] \<and> distinct (candidates values square))"

text \<open>
  A complete grid is written as a string of 81 digits in the order of \<open>squares\<close>;
  \<open>cell sol square\<close> is its digit at a square. \<open>solves grid sol\<close>: the complete grid
  \<open>sol\<close> is a solution and agrees with every given of \<open>grid\<close>. \<open>read_off\<close> reads the
  digits of a solved map in the order of \<open>squares\<close>. \<open>easy_grid\<close> is the example puzzle
  of the specification, \<open>easy_solution\<close> its solution.
\<close>

definition cell :: "string \<Rightarrow> string \<Rightarrow> char" where
  "cell sol square = (case map_of (zip squares sol) square of Some c \<Rightarrow> c | None \<Rightarrow> CHR ''0'')"

definition solves :: "string \<Rightarrow> string \<Rightarrow> bool" where
  "solves grid sol =
     (length sol = 81 \<and> is_solution (cell sol) \<and>
      (\<forall>(square, c) \<in> set (zip squares (filter accepted grid)).
          c \<in> set digits \<longrightarrow> cell sol square = c))"

definition read_off :: "values \<Rightarrow> string" where
  "read_off values = map (\<lambda>square. hd (candidates values square)) squares"

definition easy_grid :: string where
  "easy_grid = ''003020600900305001001806400008102900700000008006708200002609500800203009005010300''"

definition easy_solution :: string where
  "easy_solution = ''483921657967345821251876493548132976729564138136798245372689514814253769695417382''"

section \<open>What a successful propagation guarantees\<close>

lemma ensures_None [simp]: "ensures R values None"
  by (simp add: ensures_def)

lemma ensures_Some [simp]: "ensures R values (Some values') = R values values'"
  by (simp add: ensures_def)

lemma ensuresD: "ensures R values r \<Longrightarrow> r = Some values' \<Longrightarrow> R values values'"
  by (simp add: ensures_def)

lemma ensures_bind:
  assumes "ensures R values r"
    and "\<And>x. r = Some x \<Longrightarrow> ensures R x (g x)"
    and trans: "\<And>a b c. R a b \<Longrightarrow> R b c \<Longrightarrow> R a c"
  shows "ensures R values (case r of None \<Rightarrow> None | Some x \<Rightarrow> g x)"
proof (cases r)
  case None
  then show ?thesis by simp
next
  case (Some x)
  with assms(1,2) have "R values x" and "ensures R x (g x)" by simp_all
  then show ?thesis using Some
    by (cases "g x") (auto intro: trans)
qed

lemma reviewNextDigit_nonempty:
  "reviewNextDigit po values square = Some values' \<Longrightarrow> candidates values square \<noteq> []"
  by (auto simp: reviewNextDigit.simps)

lemma propagate_rule:
  assumes refl: "\<And>v. R v v"
    and trans: "\<And>a b c. R a b \<Longrightarrow> R b c \<Longrightarrow> R a c"
    and step: "\<And>v s d. d \<in> set (candidates v s) \<Longrightarrow> replace (candidates v s) d \<noteq> [] \<Longrightarrow>
                 R v (AList.update s (replace (candidates v s) d) v)"
  shows "ensures R values (assign po values square digit)"
    and "ensures R values (eliminate_digits po values square ds)"
    and "ensures R values (eliminate po values square digit)"
    and "ensures R values (reviewNextDigit po values square)"
    and "ensures R values (eliminate_peers po values ps digit)"
    and "ensures R values (reviewUnit po values square digit)"
    and "ensures R values (reviewUnit_units po values us digit)"
proof (induct po "values" square digit and po "values" square ds and po "values" square digit
         and po "values" square and po "values" ps digit and po "values" square digit
         and po "values" us digit rule: propagate_induct)
  case (1 po "values" square digit)
  then show ?case by (simp add: assign.simps)
next
  case (2 po "values" square)
  show ?case by (simp add: refl)
next
  case (3 po "values" square nextDigit other_values)
  then show ?case by (simp add: ensures_bind [OF _ _ trans])
next
  case (4 po "values" square digit)
  show ?case
  proof (cases "digit \<in> set (candidates values square)")
    case False
    then show ?thesis by (simp add: eliminate.simps refl)
  next
    case True
    let ?v1 = "AList.update square (replace (candidates values square) digit) values"
    have rest: "ensures R ?v1 (case reviewNextDigit po ?v1 square of None \<Rightarrow> None
                       | Some values' \<Rightarrow> reviewUnit po values' square digit)"
      using 4 True by (intro ensures_bind [OF _ _ trans]) auto
    show ?thesis
    proof (cases "eliminate po values square digit")
      case None
      then show ?thesis by simp
    next
      case (Some v')
      then obtain v2 where v2: "reviewNextDigit po ?v1 square = Some v2"
        using True by (auto simp: eliminate.simps split: option.splits)
      from reviewNextDigit_nonempty [OF v2] have "replace (candidates values square) digit \<noteq> []"
        by simp
      from step [OF True this] have "R values ?v1" .
      moreover from rest Some True have "R ?v1 v'"
        by (simp add: eliminate.simps)
      ultimately show ?thesis using Some by (simp add: trans [of "values" ?v1 v'])
    qed
  qed
next
  case (5 po "values" square)
  then show ?case
    by (auto simp: reviewNextDigit.simps refl split: list.splits)
next
  case (6 po "values" nextDigit)
  show ?case by (simp add: refl)
next
  case (7 po "values" nextSquare rest nextDigit)
  then show ?case by (simp add: ensures_bind [OF _ _ trans])
next
  case (8 po "values" square digit)
  then show ?case by (simp add: reviewUnit.simps)
next
  case (9 po "values" digit)
  show ?case by (simp add: refl)
next
  case (10 po "values" unit rest digit)
  then show ?case
    by (auto simp: reviewUnit_units.simps intro!: ensures_bind [OF _ _ trans] split: list.splits)
qed

lemma narrows_refl: "narrows v v"
  by (simp add: narrows_def)

lemma narrows_trans: "narrows a b \<Longrightarrow> narrows b c \<Longrightarrow> narrows a c"
  unfolding narrows_def by (metis subseq_order.trans)

lemma candidates_key: "digit \<in> set (candidates values square) \<Longrightarrow> square \<in> fst ` set values"
  by (cases "map_of values square") (auto simp: candidates_def dest: map_of_SomeD intro: rev_image_eqI)

lemma narrows_step:
  assumes "d \<in> set (candidates v s)" and "replace (candidates v s) d \<noteq> []"
  shows "narrows v (AList.update s (replace (candidates v s) d) v)"
  using assms candidates_key [OF assms(1)]
  by (auto simp: narrows_def update_keys replace_def)

lemmas propagate_narrows =
  propagate_rule [of narrows, OF narrows_refl narrows_trans narrows_step]

lemma narrowsD:
  assumes "narrows v v'"
  shows "set (candidates v' s) \<subseteq> set (candidates v s)"
    and "candidates v s \<noteq> [] \<Longrightarrow> candidates v' s \<noteq> []"
    and "map fst v' = map fst v"
    and "subseq (candidates v' s) (candidates v s)"
  using assms by (auto simp: narrows_def dest: list_emb_set)

lemma assign_narrows: "assign po v s d = Some v' \<Longrightarrow> narrows v v'"
  by (rule ensuresD [OF propagate_narrows(1)])

lemma eliminate_digits_narrows: "eliminate_digits po v s ds = Some v' \<Longrightarrow> narrows v v'"
  by (rule ensuresD [OF propagate_narrows(2)])

lemma eliminate_narrows: "eliminate po v s d = Some v' \<Longrightarrow> narrows v v'"
  by (rule ensuresD [OF propagate_narrows(3)])

lemma reviewNextDigit_narrows: "reviewNextDigit po v s = Some v' \<Longrightarrow> narrows v v'"
  by (rule ensuresD [OF propagate_narrows(4)])

lemma eliminate_peers_narrows: "eliminate_peers po v ps d = Some v' \<Longrightarrow> narrows v v'"
  by (rule ensuresD [OF propagate_narrows(5)])

lemma reviewUnit_narrows: "reviewUnit po v s d = Some v' \<Longrightarrow> narrows v v'"
  by (rule ensuresD [OF propagate_narrows(6)])

lemma reviewUnit_units_narrows: "reviewUnit_units po v us d = Some v' \<Longrightarrow> narrows v v'"
  by (rule ensuresD [OF propagate_narrows(7)])

lemma replace_set [simp]: "set (replace ds d) = set ds - {d}"
  by (auto simp: replace_def)

lemma eliminate_SomeE:
  assumes "eliminate po v s d = Some v'"
  obtains "d \<notin> set (candidates v s)" "v' = v"
  | v2 where "d \<in> set (candidates v s)"
      "reviewNextDigit po (AList.update s (replace (candidates v s) d) v) s = Some v2"
      "reviewUnit po v2 s d = Some v'"
  using assms by (auto simp: eliminate.simps split: if_splits option.splits)

lemma eliminate_removes:
  assumes "eliminate po v s d = Some v'"
  shows "d \<notin> set (candidates v' s)"
  using assms
proof (cases rule: eliminate_SomeE)
  case 1
  then show ?thesis by simp
next
  case (2 v2)
  let ?v1 = "AList.update s (replace (candidates v s) d) v"
  have "narrows ?v1 v2" "narrows v2 v'"
    using 2 by (auto intro: reviewNextDigit_narrows reviewUnit_narrows)
  then have "set (candidates v' s) \<subseteq> set (candidates ?v1 s)"
    using narrowsD(1) by blast
  then show ?thesis by auto
qed

lemma eliminate_digits_removes:
  "eliminate_digits po v s ds = Some v' \<Longrightarrow> d \<in> set ds \<Longrightarrow> d \<notin> set (candidates v' s)"
proof (induction ds arbitrary: v)
  case Nil
  then show ?case by simp
next
  case (Cons a ds)
  from Cons.prems(1) obtain v1 where v1: "eliminate po v s a = Some v1"
    and rest: "eliminate_digits po v1 s ds = Some v'"
    by (auto split: option.splits)
  show ?case
  proof (cases "d = a")
    case True
    from eliminate_removes [OF v1] narrowsD(1) [OF eliminate_digits_narrows [OF rest]] True
    show ?thesis by blast
  next
    case False
    with Cons.prems(2) Cons.IH [OF rest] show ?thesis by simp
  qed
qed

lemma eliminate_peers_removes:
  "eliminate_peers po v ps d = Some v' \<Longrightarrow> p \<in> set ps \<Longrightarrow> d \<notin> set (candidates v' p)"
proof (induction ps arbitrary: v)
  case Nil
  then show ?case by simp
next
  case (Cons a ps)
  from Cons.prems(1) obtain v1 where v1: "eliminate po v a d = Some v1"
    and rest: "eliminate_peers po v1 ps d = Some v'"
    by (auto split: option.splits)
  show ?case
  proof (cases "p = a")
    case True
    from eliminate_removes [OF v1] narrowsD(1) [OF eliminate_peers_narrows [OF rest]] True
    show ?thesis by blast
  next
    case False
    with Cons.prems(2) Cons.IH [OF rest] show ?thesis by simp
  qed
qed

lemma assign_only:
  assumes "assign po v s d = Some v'"
  shows "set (candidates v' s) \<subseteq> {d}"
proof
  fix x assume x: "x \<in> set (candidates v' s)"
  from assms have e: "eliminate_digits po v s (replace (candidates v s) d) = Some v'"
    by (simp add: assign.simps)
  from x narrowsD(1) [OF eliminate_digits_narrows [OF e]] have "x \<in> set (candidates v s)"
    by blast
  with eliminate_digits_removes [OF e, of x] x show "x \<in> {d}"
    by auto
qed

lemma assignPosibleValues_assign: "assignPosibleValues po v s d = assign po v s d"
  by (simp add: assignPosibleValues_def assign.simps)

lemma assign_absent_fails:
  assumes "digit \<notin> set (candidates values square)" and "candidates values square \<noteq> []"
  shows "assign po values square digit = None"
proof (rule ccontr)
  assume "assign po values square digit \<noteq> None"
  then obtain v' where v': "assign po values square digit = Some v'" by auto
  from assign_only [OF v'] narrowsD(1) [OF assign_narrows [OF v']] assms(1)
  have "candidates v' square = []"
    by (metis all_not_in_conv set_empty singletonD subsetD)
  with narrowsD(2) [OF assign_narrows [OF v'] assms(2)] show False by simp
qed

lemma eliminations_Nil [simp]: "eliminations po v [] v' = (v' = v)"
  by (auto elim: eliminations.cases intro: eliminations.intros)

lemma eliminations_Cons:
  "eliminations po v ((s, d) # rest) v' =
     (\<exists>v1. eliminate po v s d = Some v1 \<and> eliminations po v1 rest v')"
  by (auto elim: eliminations.cases intro: eliminations.intros)

lemma eliminate_digits_eliminations:
  "(eliminate_digits po v s ds = Some v') = eliminations po v (map (Pair s) ds) v'"
  by (induction ds arbitrary: v) (auto simp: eliminations_Cons split: option.splits)

lemma eliminate_peers_eliminations:
  "(eliminate_peers po v ps d = Some v') = eliminations po v (map (\<lambda>p. (p, d)) ps) v'"
  by (induction ps arbitrary: v) (auto simp: eliminations_Cons split: option.splits)

lemma parseGrid_isl: "isl (parseGrid po grid) = isl (getGridValues grid)"
  by (simp add: parseGrid_def split: sum.splits)

lemma accepted_eq:
  "accepted = (\<lambda>eachChar. eachChar \<in> set digits \<or> eachChar \<in> set ''0.'')"
  by (rule ext) (simp add: accepted_def)

lemma getGridValues_accepted:
  "getGridValues grid =
     (if length (filter accepted grid) = 81 then Inr (zip squares (filter accepted grid))
      else Inl AssertionError)"
  by (simp add: getGridValues_def Let_def accepted_eq)

lemma keeps_apart_simps [simp]:
  "keeps_apart P values None"
  "keeps_apart P values (Some values)"
  by (simp_all add: keeps_apart_def)

lemma keeps_apart_bind:
  assumes "keeps_apart P values r" and "\<And>x. r = Some x \<Longrightarrow> keeps_apart P x (g x)"
  shows "keeps_apart P values (case r of None \<Rightarrow> None | Some x \<Rightarrow> g x)"
  using assms by (cases r) (auto simp: keeps_apart_def split: option.splits)

lemma settled_apart_remove:
  assumes "settled_apart P values"
  shows "settled_apart (insert square P) (AList.update square (replace (candidates values square) digit) values)"
  unfolding settled_apart_def
proof (intro allI impI ballI)
  fix s d p
  let ?v1 = "AList.update square (replace (candidates values square) digit) values"
  assume s: "s \<notin> insert square P" and c: "candidates ?v1 s = [d]" and p: "p \<in> peers s"
  from s c have "candidates values s = [d]" "s \<notin> P" by auto
  with assms p have "d \<notin> set (candidates values p)"
    by (auto simp: settled_apart_def)
  then show "d \<notin> set (candidates ?v1 p)" by auto
qed

lemma settled_apart_mono: "settled_apart P values \<Longrightarrow> P \<subseteq> Q \<Longrightarrow> settled_apart Q values"
  by (auto simp: settled_apart_def)

lemma subseq_singleton_cases: "subseq xs [d] \<Longrightarrow> xs = [] \<or> xs = [d]"
  by (cases xs) (auto simp: subseq_Cons' split: if_splits)

lemma propagate_keeps_apart:
  "iterates_peers po \<longrightarrow> (\<forall>P. keeps_apart P values (assign po values square digit))"
  "iterates_peers po \<longrightarrow> (\<forall>P. keeps_apart P values (eliminate_digits po values square ds))"
  "iterates_peers po \<longrightarrow> (\<forall>P. keeps_apart P values (eliminate po values square digit))"
  "iterates_peers po \<longrightarrow> (\<forall>P values'. settled_apart (insert square P) values \<longrightarrow>
       reviewNextDigit po values square = Some values' \<longrightarrow> settled_apart P values')"
  "iterates_peers po \<longrightarrow> (\<forall>P. keeps_apart P values (eliminate_peers po values ps digit))"
  "iterates_peers po \<longrightarrow> (\<forall>P. keeps_apart P values (reviewUnit po values square digit))"
  "iterates_peers po \<longrightarrow> (\<forall>P. keeps_apart P values (reviewUnit_units po values us digit))"
proof (induct po "values" square digit and po "values" square ds and po "values" square digit
         and po "values" square and po "values" ps digit and po "values" square digit
         and po "values" us digit rule: propagate_induct)
  case (1 po "values" square digit)
  then show ?case by (simp add: assign.simps)
next
  case (2 po "values" square)
  show ?case by simp
next
  case (3 po "values" square nextDigit other_values)
  then show ?case by (auto intro!: keeps_apart_bind)
next
  case (4 po "values" square digit)
  show ?case
  proof (intro impI allI)
    fix P assume po: "iterates_peers po"
    show "keeps_apart P values (eliminate po values square digit)"
    proof (cases "eliminate po values square digit")
      case None
      then show ?thesis by simp
    next
      case (Some v')
      then show ?thesis
      proof (cases rule: eliminate_SomeE)
        case 1
        with Some show ?thesis by simp
      next
        case (2 v2)
        let ?v1 = "AList.update square (replace (candidates values square) digit) values"
        show ?thesis unfolding Some keeps_apart_def
        proof (simp, intro impI)
          assume "settled_apart P values"
          then have "settled_apart (insert square P) ?v1"
            by (rule settled_apart_remove)
          with 4(1) 2 po have "settled_apart P v2" by blast
          moreover from 4(2) [OF _ 2(2)] 2(1) po have "keeps_apart P v2 (reviewUnit po v2 square digit)"
            by blast
          ultimately show "settled_apart P v'"
            using 2(3) by (simp add: keeps_apart_def)
        qed
      qed
    qed
  qed
next
  case (5 po "values" square)
  show ?case
  proof (intro impI allI)
    fix P v'
    assume po: "iterates_peers po" and inv: "settled_apart (insert square P) values"
      and r: "reviewNextDigit po values square = Some v'"
    show "settled_apart P v'"
    proof (cases "candidates values square")
      case Nil
      with r show ?thesis by (simp add: reviewNextDigit.simps)
    next
      case (Cons d ds)
      show ?thesis
      proof (cases ds)
        case Nil
        with Cons have c: "candidates values square = [d]" by simp
        with r have e: "eliminate_peers po values (po square) d = Some v'"
          by (simp add: reviewNextDigit.simps)
        from 5 [OF c [unfolded Nil [symmetric]] Nil] po
        have "keeps_apart (insert square P) values (eliminate_peers po values (po square) d)"
          using Cons Nil by blast
        with e inv have inv': "settled_apart (insert square P) v'"
          by (simp add: keeps_apart_def)
        have here: "d' \<notin> set (candidates v' p)"
          if "candidates v' square = [d']" "p \<in> peers square" for d' p
        proof -
          have "subseq (candidates v' square) (candidates values square)"
            by (rule narrowsD(4) [OF eliminate_peers_narrows [OF e]])
          then have "subseq [d'] [d]" unfolding c that(1) .
          from subseq_singleton_cases [OF this] have "d' = d" by simp
          moreover from that(2) po have "p \<in> set (po square)"
            by (simp add: iterates_peers_def)
          ultimately show ?thesis using eliminate_peers_removes [OF e] by simp
        qed
        show ?thesis unfolding settled_apart_def
        proof (intro allI impI ballI)
          fix s d' p
          assume "s \<notin> P" "candidates v' s = [d']" "p \<in> peers s"
          then show "d' \<notin> set (candidates v' p)"
            using here inv' by (cases "s = square") (auto simp: settled_apart_def)
        qed
      next
        case (Cons d2 ds2)
        with \<open>candidates values square = d # ds\<close> r have "v' = values"
          by (simp add: reviewNextDigit.simps)
        moreover have "d' \<notin> set (candidates values p)"
          if "s \<notin> P" "candidates values s = [d']" "p \<in> peers s" for s d' p
        proof (cases "s = square")
          case True
          with that(2) Cons \<open>candidates values square = d # ds\<close> show ?thesis by simp
        next
          case False
          with that inv show ?thesis by (auto simp: settled_apart_def)
        qed
        ultimately show ?thesis
          unfolding settled_apart_def by blast
      qed
    qed
  qed
next
  case (6 po "values" nextDigit)
  show ?case by simp
next
  case (7 po "values" nextSquare rest nextDigit)
  then show ?case by (auto intro!: keeps_apart_bind)
next
  case (8 po "values" square digit)
  then show ?case by (simp add: reviewUnit.simps)
next
  case (9 po "values" digit)
  show ?case by simp
next
  case (10 po "values" unit rest digit)
  then show ?case
    by (auto simp: reviewUnit_units.simps intro!: keeps_apart_bind split: list.splits)
qed

section \<open>Soundness of the search\<close>

lemma map_of_tabulate:
  "map_of (map (\<lambda>k. (k, f k)) ks) k = (if k \<in> set ks then Some (f k) else None)"
  by (induction ks) auto

lemma candidates_fresh:
  "candidates fresh_values square = (if square \<in> set squares then digits else [])"
  by (simp add: candidates_def fresh_values_def map_of_tabulate)

lemma settled_apart_fresh: "settled_apart {} fresh_values"
  by (auto simp: settled_apart_def candidates_fresh digits_def)

lemma parseGrid_items_narrows:
  "parseGrid_items po v items = Some v' \<Longrightarrow> narrows v v'"
proof (induction po v items rule: parseGrid_items.induct)
  case (1 po "values")
  then show ?case by (simp add: narrows_refl)
next
  case (2 po "values" square digit rest)
  then show ?case
    by (auto simp: assignPosibleValues_assign split: if_splits option.splits
             dest: assign_narrows intro: narrows_trans)
qed

lemma assign_keeps_apart:
  "iterates_peers po \<Longrightarrow> settled_apart P v \<Longrightarrow> assign po v s d = Some v' \<Longrightarrow> settled_apart P v'"
  using propagate_keeps_apart(1) [of po v s d] by (auto simp: keeps_apart_def)

lemma parseGrid_items_keeps_apart:
  "iterates_peers po \<Longrightarrow> settled_apart {} v \<Longrightarrow> parseGrid_items po v items = Some v' \<Longrightarrow>
   settled_apart {} v'"
proof (induction po v items rule: parseGrid_items.induct)
  case (1 po "values")
  then show ?case by simp
next
  case (2 po "values" square digit rest)
  then show ?case
    by (auto simp: assignPosibleValues_assign split: if_splits option.splits
             dest: assign_keeps_apart)
qed

lemma search_sound_trivial [simp]:
  "search_sound call (Inl e)" "search_sound call (Inr None)"
  by (simp_all add: search_sound_def)

lemma search_is_sound_aux:
  assumes "search po call = Some r"
  shows "iterates_peers po \<longrightarrow> search_sound call r"
proof (rule search.raw_induct
         [where P = "\<lambda>po call r. iterates_peers po \<longrightarrow> search_sound call r", OF _ assms],
       goal_cases)
  case (1 search' po call r)
  show ?case
  proof
    assume po: "iterates_peers po"
    note IH = 1(1) [THEN mp, OF _ po]
    show "search_sound call r"
    proof (cases call)
      case (Inl vo)
      show ?thesis
      proof (cases vo)
        case None
        with Inl 1(2) show ?thesis by auto
      next
        case (Some v)
        from 1(2) Inl Some
        have body: "(if \<forall>square \<in> set squares. length (candidates v square) = 1
                     then Some (Inr (Some v))
                     else (case fewest v of
                             None \<Rightarrow> Some (Inl ValueError)
                           | Some (n, square) \<Rightarrow>
                               search' po (Inr (v, square, candidates v square)))) = Some r"
          by (simp only: sum.case option.case)
        show ?thesis
        proof (cases "\<forall>square \<in> set squares. length (candidates v square) = 1")
          case True
          from body [unfolded if_P [OF True]] have "r = Inr (Some v)" by simp
          with Inl Some True show ?thesis
            by (simp add: search_sound_def solved_map_def narrows_refl)
        next
          case False
          note rest = body [unfolded if_not_P [OF False]]
          show ?thesis
          proof (cases "fewest v")
            case None
            with rest have "r = Inl ValueError" by simp
            then show ?thesis by simp
          next
            case (Some ns)
            obtain n s where ns: "ns = (n, s)" by (cases ns)
            with rest Some
            have "search' po (Inr (v, s, candidates v s)) = Some r" by simp
            from IH [OF this] Inl \<open>vo = Some v\<close> show ?thesis
              by (auto simp: search_sound_def split: sum.splits option.splits)
          qed
        qed
      qed
    next
      case (Inr job)
      obtain v s ds where job: "job = (v, s, ds)" by (cases job)
      show ?thesis
      proof (cases ds)
        case Nil
        with Inr job 1(2) show ?thesis by auto
      next
        case (Cons d rest)
        with Inr job 1(2) obtain e where e: "search' po (Inl (assign po v s d)) = Some e"
          and r: "(case e of Inl err \<Rightarrow> Some (Inl err)
                   | Inr None \<Rightarrow> search' po (Inr (v, s, rest))
                   | Inr (Some solution) \<Rightarrow> Some (Inr (Some solution))) = Some r"
          by (auto simp: bind_eq_Some_conv)
        show ?thesis
        proof (cases e)
          case (Inl err)
          with r show ?thesis by auto
        next
          case (Inr mo)
          show ?thesis
          proof (cases mo)
            case None
            with Inr r have "search' po (Inr (v, s, rest)) = Some r" by simp
            from IH [OF this] \<open>call = Inr job\<close> job show ?thesis
              by (auto simp: search_sound_def split: sum.splits option.splits)
          next
            case (Some m)
            with Inr r have rm: "r = Inr (Some m)" by simp
            from IH [OF e] Inr Some obtain v1 where v1: "assign po v s d = Some v1"
              and m: "narrows v1 m" "solved_map m" "settled_apart {} v1 \<longrightarrow> settled_apart {} m"
              by (auto simp: search_sound_def split: option.splits)
            from assign_narrows [OF v1] m(1) have "narrows v m" by (rule narrows_trans)
            moreover have "settled_apart {} v \<longrightarrow> settled_apart {} m"
              using assign_keeps_apart [OF po _ v1] m(3) by blast
            ultimately show ?thesis using rm m(2) \<open>call = Inr job\<close> job
              by (simp add: search_sound_def)
          qed
        qed
      qed
    qed
  qed
qed

lemma deepSearch_sound:
  assumes "deepSearch po (Some v) = Some (Inr (Some m))" and "iterates_peers po"
  shows "narrows v m" "solved_map m" "settled_apart {} v \<Longrightarrow> settled_apart {} m"
  using search_is_sound_aux [OF assms(1) [unfolded deepSearch_def]] assms(2)
  by (auto simp: search_sound_def)

lemma deepSearch_None [simp]: "deepSearch po None = Some (Inr None)"
  by (simp add: deepSearch_def search.simps)

lemma solve_sound:
  assumes "solve po grid = Some (Inr (Some m))" and po: "iterates_peers po"
  shows "narrows fresh_values m" "solved_map m" "settled_apart {} m"
proof -
  from assms(1) obtain items v where items: "getGridValues grid = Inr items"
    and v: "parseGrid_items po fresh_values items = Some v"
    and m: "deepSearch po (Some v) = Some (Inr (Some m))"
    by (cases "getGridValues grid"; cases "parseGrid_items po fresh_values (projr (getGridValues grid))")
       (auto simp: solve_def parseGrid_def)
  from parseGrid_items_narrows [OF v] deepSearch_sound(1) [OF m po]
  show "narrows fresh_values m" by (rule narrows_trans)
  show "solved_map m" by (rule deepSearch_sound(2) [OF m po])
  show "settled_apart {} m"
    using deepSearch_sound(3) [OF m po] parseGrid_items_keeps_apart [OF po settled_apart_fresh v]
    by blast
qed

lemma unitlist_facts:
  "\<forall>unit \<in> set unitlist. distinct unit \<and> length unit = 9 \<and> set unit \<subseteq> set squares"
  by code_simp

lemma digits_facts: "distinct digits" "length digits = 9"
  by (simp_all add: digits_def)

lemma same_unit_peers:
  "unit \<in> set unitlist \<Longrightarrow> s1 \<in> set unit \<Longrightarrow> s2 \<in> set unit \<Longrightarrow> s1 \<noteq> s2 \<Longrightarrow> s2 \<in> peers s1"
  by (auto simp: peers_def units_def)

lemma solved_units:
  assumes narrow: "narrows fresh_values m" and solved: "solved_map m" and apart: "settled_apart {} m"
  shows "\<forall>square \<in> set squares. \<exists>digit \<in> set digits. candidates m square = [digit]"
    and "\<forall>unit \<in> set unitlist. \<forall>digit \<in> set digits.
           length (filter (\<lambda>square. candidates m square = [digit]) unit) = 1"
proof -
  define f where "f s = hd (candidates m s)" for s
  have single: "candidates m s = [f s] \<and> f s \<in> set digits" if "s \<in> set squares" for s
  proof -
    from solved that have "length (candidates m s) = 1" by (simp add: solved_map_def)
    then have c: "candidates m s = [f s]"
      by (cases "candidates m s") (auto simp: f_def)
    from narrowsD(1) [OF narrow, of s] that have "set (candidates m s) \<subseteq> set digits"
      by (simp add: candidates_fresh)
    with c show ?thesis by auto
  qed
  then show "\<forall>square \<in> set squares. \<exists>digit \<in> set digits. candidates m square = [digit]"
    by blast
  show "\<forall>unit \<in> set unitlist. \<forall>digit \<in> set digits.
           length (filter (\<lambda>square. candidates m square = [digit]) unit) = 1"
  proof (intro ballI)
    fix unit digit assume u: "unit \<in> set unitlist" and d: "digit \<in> set digits"
    from unitlist_facts u have du: "distinct unit" and lu: "length unit = 9"
      and su: "set unit \<subseteq> set squares" by auto
    have inj: "inj_on f (set unit)"
    proof (rule inj_onI)
      fix s1 s2 assume s: "s1 \<in> set unit" "s2 \<in> set unit" and eq: "f s1 = f s2"
      show "s1 = s2"
      proof (rule ccontr)
        assume ne: "s1 \<noteq> s2"
        from same_unit_peers [OF u s ne] have "s2 \<in> peers s1" .
        moreover from single s su have "candidates m s1 = [f s1]" "candidates m s2 = [f s2]"
          by auto
        ultimately show False using apart eq
          unfolding settled_apart_def by (metis empty_iff list.set_intros(1))
      qed
    qed
    have "f ` set unit \<subseteq> set digits" using single su by auto
    moreover have "card (f ` set unit) = card (set digits)"
      using inj du lu digits_facts by (simp add: card_image distinct_card)
    ultimately have img: "f ` set unit = set digits"
      by (simp add: card_subset_eq)
    with d have "digit \<in> f ` set unit" by simp
    then obtain s0 where s0: "s0 \<in> set unit" "f s0 = digit" by auto
    have "{s \<in> set unit. candidates m s = [digit]} = {s0}"
    proof (rule set_eqI, rule iffI)
      fix s assume "s \<in> {s \<in> set unit. candidates m s = [digit]}"
      then have "s \<in> set unit" "f s = digit" by (auto simp: f_def)
      with s0 inj show "s \<in> {s0}" by (auto dest: inj_onD)
    next
      fix s assume "s \<in> {s0}"
      with s0 single su show "s \<in> {s \<in> set unit. candidates m s = [digit]}" by auto
    qed
    then have "card {s \<in> set unit. candidates m s = [digit]} = 1" by simp
    moreover have "length (filter (\<lambda>square. candidates m square = [digit]) unit)
                   = card {s \<in> set unit. candidates m s = [digit]}"
      using du by (simp add: distinct_length_filter Int_def conj_commute)
    ultimately show "length (filter (\<lambda>square. candidates m square = [digit]) unit) = 1"
      by simp
  qed
qed



section \<open>Propagation never loses a solution\<close>

lemma succeeds_Some [simp]: "succeeds \<sigma> (Some v) = fits \<sigma> v"
  by (simp add: succeeds_def)

lemma succeeds_bind:
  "succeeds \<sigma> r \<Longrightarrow> (\<And>x. r = Some x \<Longrightarrow> fits \<sigma> x \<Longrightarrow> succeeds \<sigma> (g x)) \<Longrightarrow>
   succeeds \<sigma> (case r of None \<Rightarrow> None | Some x \<Rightarrow> g x)"
  by (auto simp: succeeds_def)

lemma solution_inj:
  assumes "is_solution \<sigma>" and "unit \<in> set unitlist"
  shows "inj_on \<sigma> (set unit)"
proof -
  from unitlist_facts assms(2) have "distinct unit" "length unit = 9" by auto
  then have "card (set unit) = 9" by (simp add: distinct_card)
  moreover from assms have "card (\<sigma> ` set unit) = 9"
    by (simp add: is_solution_def digits_facts distinct_card)
  ultimately show ?thesis by (simp add: eq_card_imp_inj_on)
qed

lemma peers_unit:
  assumes "p \<in> peers s"
  obtains unit where "unit \<in> set unitlist" "s \<in> set unit" "p \<in> set unit" "p \<noteq> s"
  using assms by (auto simp: peers_def units_def)

lemma solution_peers: "is_solution \<sigma> \<Longrightarrow> p \<in> peers s \<Longrightarrow> \<sigma> p \<noteq> \<sigma> s"
  by (metis inj_onD peers_unit solution_inj)

lemma peers_squares: "p \<in> peers s \<Longrightarrow> p \<in> set squares"
  using unitlist_facts by (auto elim!: peers_unit)

lemma units_subset: "set (units s) \<subseteq> set unitlist"
  by (auto simp: units_def)

lemma fits_narrows: "fits \<sigma> v \<Longrightarrow> narrows v v' \<Longrightarrow> \<forall>square. set (candidates v' square) \<subseteq> set digits"
  using narrowsD(1) by (fastforce simp: fits_def)

lemma propagate_complete:
  "iterates_peers po \<longrightarrow> is_solution \<sigma> \<longrightarrow> fits \<sigma> values \<longrightarrow> square \<in> set squares \<longrightarrow>
     digit = \<sigma> square \<longrightarrow> succeeds \<sigma> (assign po values square digit)"
  "iterates_peers po \<longrightarrow> is_solution \<sigma> \<longrightarrow> fits \<sigma> values \<longrightarrow> square \<in> set squares \<longrightarrow>
     \<sigma> square \<notin> set ds \<longrightarrow> succeeds \<sigma> (eliminate_digits po values square ds)"
  "iterates_peers po \<longrightarrow> is_solution \<sigma> \<longrightarrow> fits \<sigma> values \<longrightarrow> square \<in> set squares \<longrightarrow>
     digit \<noteq> \<sigma> square \<longrightarrow> succeeds \<sigma> (eliminate po values square digit)"
  "iterates_peers po \<longrightarrow> is_solution \<sigma> \<longrightarrow> fits \<sigma> values \<longrightarrow> square \<in> set squares \<longrightarrow>
     succeeds \<sigma> (reviewNextDigit po values square)"
  "iterates_peers po \<longrightarrow> is_solution \<sigma> \<longrightarrow> fits \<sigma> values \<longrightarrow> set ps \<subseteq> set squares \<longrightarrow>
     (\<forall>p \<in> set ps. \<sigma> p \<noteq> digit) \<longrightarrow> succeeds \<sigma> (eliminate_peers po values ps digit)"
  "iterates_peers po \<longrightarrow> is_solution \<sigma> \<longrightarrow> fits \<sigma> values \<longrightarrow> digit \<in> set digits \<longrightarrow>
     succeeds \<sigma> (reviewUnit po values square digit)"
  "iterates_peers po \<longrightarrow> is_solution \<sigma> \<longrightarrow> fits \<sigma> values \<longrightarrow> digit \<in> set digits \<longrightarrow>
     set us \<subseteq> set unitlist \<longrightarrow> succeeds \<sigma> (reviewUnit_units po values us digit)"
proof (induct po "values" square digit and po "values" square ds and po "values" square digit
         and po "values" square and po "values" ps digit and po "values" square digit
         and po "values" us digit rule: propagate_induct)
  case (1 po "values" square digit)
  then show ?case by (auto simp: assign.simps)
next
  case (2 po "values" square)
  show ?case by simp
next
  case (3 po "values" square nextDigit other_values)
  then show ?case by (auto intro!: succeeds_bind)
next
  case (4 po "values" square digit)
  show ?case
  proof (intro impI)
    assume po: "iterates_peers po" and sol: "is_solution \<sigma>" and fits: "fits \<sigma> values"
      and sq: "square \<in> set squares" and ne: "digit \<noteq> \<sigma> square"
    show "succeeds \<sigma> (eliminate po values square digit)"
    proof (cases "digit \<in> set (candidates values square)")
      case False
      with fits show ?thesis by (simp add: eliminate.simps)
    next
      case True
      let ?v1 = "AList.update square (replace (candidates values square) digit) values"
      have f1: "fits \<sigma> ?v1"
        using fits ne by (auto simp: fits_def)
      have d: "digit \<in> set digits"
        using fits True by (auto simp: fits_def)
      have "succeeds \<sigma> (case reviewNextDigit po ?v1 square of None \<Rightarrow> None
                         | Some values' \<Rightarrow> reviewUnit po values' square digit)"
      proof (rule succeeds_bind)
        show "succeeds \<sigma> (reviewNextDigit po ?v1 square)"
          using 4(1) True po sol f1 sq by blast
      next
        fix x assume "reviewNextDigit po ?v1 square = Some x" "fits \<sigma> x"
        then show "succeeds \<sigma> (reviewUnit po x square digit)"
          using 4(2) True po sol d by blast
      qed
      with True show ?thesis by (simp add: eliminate.simps)
    qed
  qed
next
  case (5 po "values" square)
  show ?case
  proof (intro impI)
    assume po: "iterates_peers po" and sol: "is_solution \<sigma>" and fits: "fits \<sigma> values"
      and sq: "square \<in> set squares"
    from fits sq have mem: "\<sigma> square \<in> set (candidates values square)"
      by (simp add: fits_def)
    show "succeeds \<sigma> (reviewNextDigit po values square)"
    proof (cases "candidates values square")
      case Nil
      with mem show ?thesis by simp
    next
      case (Cons d ds)
      show ?thesis
      proof (cases ds)
        case Nil
        with Cons mem have d: "d = \<sigma> square" by simp
        have "set (po square) \<subseteq> set squares" "\<forall>p \<in> set (po square). \<sigma> p \<noteq> d"
          using po sol d by (auto simp: iterates_peers_def dest: peers_squares solution_peers)
        with 5 [OF Cons Nil] po sol fits
        have "succeeds \<sigma> (eliminate_peers po values (po square) d)" by blast
        with Cons Nil show ?thesis by (simp add: reviewNextDigit.simps)
      next
        case (Cons d2 ds2)
        with \<open>candidates values square = d # ds\<close> fits show ?thesis
          by (simp add: reviewNextDigit.simps)
      qed
    qed
  qed
next
  case (6 po "values" nextDigit)
  show ?case by simp
next
  case (7 po "values" nextSquare rest nextDigit)
  then show ?case by (auto intro!: succeeds_bind)
next
  case (8 po "values" square digit)
  then show ?case using units_subset by (auto simp: reviewUnit.simps)
next
  case (9 po "values" digit)
  show ?case by simp
next
  case (10 po "values" unit rest digit)
  show ?case
  proof (intro impI)
    assume po: "iterates_peers po" and sol: "is_solution \<sigma>" and fits: "fits \<sigma> values"
      and d: "digit \<in> set digits" and us: "set (unit # rest) \<subseteq> set unitlist"
    let ?places = "filter (\<lambda>square. digit \<in> set (candidates values square)) unit"
    from us have u: "unit \<in> set unitlist" and rest: "set rest \<subseteq> set unitlist" by auto
    from sol u d have "digit \<in> \<sigma> ` set unit"
      by (simp add: is_solution_def)
    then obtain c where c: "c \<in> set unit" "\<sigma> c = digit"
      by auto
    from unitlist_facts u c(1) have csq: "c \<in> set squares" by auto
    with fits c have cin: "c \<in> set ?places" by (auto simp: fits_def)
    show "succeeds \<sigma> (reviewUnit_units po values (unit # rest) digit)"
    proof (cases ?places)
      case Nil
      with cin show ?thesis by simp
    next
      case (Cons place more)
      show ?thesis
      proof (cases more)
        case Nil
        with Cons cin have pc: "place = c" by simp
        have "succeeds \<sigma> (case assign po values place digit of None \<Rightarrow> None
                           | Some values' \<Rightarrow> reviewUnit_units po values' rest digit)"
        proof (rule succeeds_bind)
          show "succeeds \<sigma> (assign po values place digit)"
            using 10(1) [OF Cons Nil] po sol fits csq c(2) pc by blast
        next
          fix x assume "assign po values place digit = Some x" "fits \<sigma> x"
          then show "succeeds \<sigma> (reviewUnit_units po x rest digit)"
            using 10(2) [OF Cons Nil] po sol d rest by blast
        qed
        with Cons Nil show ?thesis by (simp add: reviewUnit_units.simps)
      next
        case (Cons p2 more2)
        with 10(3) [OF \<open>?places = place # more\<close> Cons] po sol fits d rest
        have "succeeds \<sigma> (reviewUnit_units po values rest digit)" by blast
        with Cons \<open>?places = place # more\<close> show ?thesis
          by (simp add: reviewUnit_units.simps)
      qed
    qed
  qed
qed

section \<open>The search returns\<close>

lemma deepSearch_Some:
  "deepSearch po (Some v) =
     (if solved_map v then Some (Inr (Some v))
      else (case fewest v of
              None \<Rightarrow> Some (Inl ValueError)
            | Some (n, square) \<Rightarrow> validValues po v square (candidates v square)))"
  by (subst deepSearch_def, subst search.simps)
     (auto simp: solved_map_def validValues_def split: option.splits)

lemma validValues_Nil [simp]: "validValues po v square [] = Some (Inr None)"
  by (subst validValues_def, subst search.simps) simp

lemma validValues_Cons:
  "validValues po v square (digit # rest) =
     Option.bind (deepSearch po (assign po v square digit))
       (\<lambda>element. case element of
          Inl e \<Rightarrow> Some (Inl e)
        | Inr None \<Rightarrow> validValues po v square rest
        | Inr (Some solution) \<Rightarrow> Some (Inr (Some solution)))"
  by (subst validValues_def, subst search.simps) (simp add: validValues_def deepSearch_def)

lemma propagate_weight:
  "ensures (\<lambda>v v'. weight v' \<le> weight v) values (assign po values square digit)"
  "ensures (\<lambda>v v'. weight v' \<le> weight v) values (eliminate_digits po values square ds)"
  "ensures (\<lambda>v v'. weight v' \<le> weight v) values (eliminate po values square digit)"
  "ensures (\<lambda>v v'. weight v' \<le> weight v) values (reviewNextDigit po values square)"
  "ensures (\<lambda>v v'. weight v' \<le> weight v) values (eliminate_peers po values ps digit)"
  "ensures (\<lambda>v v'. weight v' \<le> weight v) values (reviewUnit po values square digit)"
  "ensures (\<lambda>v v'. weight v' \<le> weight v) values (reviewUnit_units po values us digit)"
  by (rule propagate_rule; use weight_remove in \<open>auto intro: less_imp_le\<close>)+

lemma eliminate_weight_less:
  assumes "eliminate po v s d = Some v'" and "d \<in> set (candidates v s)"
  shows "weight v' < weight v"
  using assms(1)
proof (cases rule: eliminate_SomeE)
  case 1
  with assms(2) show ?thesis by simp
next
  case (2 v2)
  from ensuresD [OF propagate_weight(4) 2(2)] ensuresD [OF propagate_weight(6) 2(3)]
    weight_remove [OF assms(2)]
  show ?thesis by simp
qed

lemma assign_weight_less:
  assumes "assign po v s d = Some v'" and "replace (candidates v s) d \<noteq> []"
  shows "weight v' < weight v"
proof -
  from assms(2) obtain x xs where x: "replace (candidates v s) d = x # xs"
    by (cases "replace (candidates v s) d") auto
  then have "x \<in> set (replace (candidates v s) d)" by simp
  then have xin: "x \<in> set (candidates v s)" by simp
  from assms(1) x obtain v1 where v1: "eliminate po v s x = Some v1"
    and rest: "eliminate_digits po v1 s xs = Some v'"
    by (auto simp: assign.simps split: option.splits)
  from eliminate_weight_less [OF v1 xin] ensuresD [OF propagate_weight(2) rest]
  show ?thesis by simp
qed

lemma fold_min_in: "fold min cs (c :: 'a :: linorder) \<in> set (c # cs)"
  by (induction cs arbitrary: c) (auto simp: min_def)

lemma fold_min_le: "\<forall>x \<in> set (c # cs). fold min cs (c :: 'a :: linorder) \<le> x"
proof (induction cs arbitrary: c)
  case Nil
  then show ?case by simp
next
  case (Cons a cs)
  have "fold min cs (min a c) \<le> min a c" using Cons.IH [of "min a c"] by simp
  moreover have "\<forall>x \<in> set cs. fold min cs (min a c) \<le> x" using Cons.IH [of "min a c"] by simp
  ultimately show ?case by auto
qed

lemma fewest_Some:
  assumes "fewest v = Some (n, s)"
  shows "s \<in> set squares" "1 < length (candidates v s)" "n = length (candidates v s)"
    and "\<And>s'. s' \<in> set squares \<Longrightarrow> 1 < length (candidates v s') \<Longrightarrow>
           (n, s) \<le> (length (candidates v s'), s')"
proof -
  let ?cands = "map (\<lambda>square. (length (candidates v square), square))
                  (filter (\<lambda>square. length (candidates v square) > 1) squares)"
  from assms obtain c cs where cs: "?cands = c # cs" and m: "(n, s) = fold min cs c"
    by (auto simp: fewest_def split: list.splits)
  from fold_min_in [of cs c] m cs have "(n, s) \<in> set ?cands" by simp
  then show "s \<in> set squares" "1 < length (candidates v s)" "n = length (candidates v s)"
    by auto
  fix s' assume "s' \<in> set squares" "1 < length (candidates v s')"
  then have "(length (candidates v s'), s') \<in> set ?cands" by auto
  with cs have mem: "(length (candidates v s'), s') \<in> set (c # cs)" by simp
  from fold_min_le [of c cs, THEN bspec, OF mem] m
  show "(n, s) \<le> (length (candidates v s'), s')" by simp
qed

lemma fewest_None:
  assumes "fewest v = None" and "s \<in> set squares"
  shows "length (candidates v s) \<le> 1"
proof (rule ccontr)
  assume "\<not> length (candidates v s) \<le> 1"
  with assms(2) have "s \<in> set (filter (\<lambda>square. length (candidates v square) > 1) squares)"
    by simp
  then have "filter (\<lambda>square. length (candidates v square) > 1) squares \<noteq> []"
    by (metis empty_iff list.set(1))
  with assms(1) show False
    by (auto simp: fewest_def split: list.splits)
qed

lemma subseq_distinct: "subseq xs ys \<Longrightarrow> distinct ys \<Longrightarrow> distinct xs"
  using subseqs_distinctD [of xs ys] by simp

lemma good_narrows: "good v \<Longrightarrow> narrows v v' \<Longrightarrow> good v'"
  unfolding good_def using narrowsD(2,4) subseq_distinct by blast

lemma good_fewest:
  assumes "good v" and "\<not> solved_map v"
  obtains n s where "fewest v = Some (n, s)"
proof (cases "fewest v")
  case None
  from assms(2) obtain s where s: "s \<in> set squares" "length (candidates v s) \<noteq> 1"
    by (auto simp: solved_map_def)
  with fewest_None [OF None s(1)] assms(1) show ?thesis
    by (cases "candidates v s") (auto simp: good_def)
next
  case (Some ns)
  with that show ?thesis by (cases ns) auto
qed

lemma replace_nonempty:
  assumes "1 < length xs" and "distinct xs"
  shows "replace xs d \<noteq> []"
proof -
  from assms obtain a b rest where xs: "xs = a # b # rest" "a \<noteq> b"
    by (cases xs; cases "tl xs") auto
  then have "a \<noteq> d \<or> b \<noteq> d" by auto
  with xs show ?thesis by (auto simp: replace_def)
qed

lemma assign_complete:
  assumes "iterates_peers po" "is_solution \<sigma>" "fits \<sigma> v" "s \<in> set squares"
  obtains v' where "assign po v s (\<sigma> s) = Some v'" "fits \<sigma> v'"
  using propagate_complete(1) [of po \<sigma> v s "\<sigma> s"] assms by (auto simp: succeeds_def)

lemma search_total:
  assumes po: "iterates_peers po"
  shows "good v \<Longrightarrow> \<exists>r. deepSearch po (Some v) = Some (Inr r) \<and>
           (\<forall>\<sigma>. is_solution \<sigma> \<longrightarrow> fits \<sigma> v \<longrightarrow> r \<noteq> None)"
proof (induction "weight v" arbitrary: v rule: less_induct)
  case less
  show ?case
  proof (cases "solved_map v")
    case True
    then show ?thesis by (simp add: deepSearch_Some)
  next
    case False
    from good_fewest [OF less.prems False] obtain n s where few: "fewest v = Some (n, s)" .
    note s = fewest_Some(1,2) [OF few]
    from less.prems s(1) have dist: "distinct (candidates v s)" by (simp add: good_def)
    have loop: "\<exists>r. validValues po v s ds = Some (Inr r) \<and>
                  (\<forall>\<sigma>. is_solution \<sigma> \<longrightarrow> fits \<sigma> v \<longrightarrow> \<sigma> s \<in> set ds \<longrightarrow> r \<noteq> None)"
      if "set ds \<subseteq> set (candidates v s)" for ds
      using that
    proof (induction ds)
      case Nil
      show ?case by simp
    next
      case (Cons d rest)
      from Cons.prems have "set rest \<subseteq> set (candidates v s)" by simp
      from Cons.IH [OF this] obtain r where r: "validValues po v s rest = Some (Inr r)"
        and rsol: "\<And>\<sigma>. is_solution \<sigma> \<Longrightarrow> fits \<sigma> v \<Longrightarrow> \<sigma> s \<in> set rest \<Longrightarrow> r \<noteq> None"
        by (elim exE conjE) (rule that, assumption, blast)
      show ?case
      proof (cases "assign po v s d")
        case None
        then have "validValues po v s (d # rest) = Some (Inr r)"
          by (simp add: validValues_Cons r)
        moreover have "r \<noteq> None" if "is_solution \<sigma>" "fits \<sigma> v" "\<sigma> s \<in> set (d # rest)" for \<sigma>
        proof (cases "\<sigma> s = d")
          case True
          with assign_complete [OF po that(1,2) s(1)] None show ?thesis by auto
        next
          case False
          with that rsol show ?thesis by auto
        qed
        ultimately show ?thesis by blast
      next
        case (Some v1)
        from good_narrows [OF less.prems assign_narrows [OF Some]] have g1: "good v1" .
        from assign_weight_less [OF Some replace_nonempty [OF s(2) dist]]
        have "weight v1 < weight v" .
        from less.hyps [OF this g1] obtain r1 where r1: "deepSearch po (Some v1) = Some (Inr r1)"
          and r1sol: "\<And>\<sigma>. is_solution \<sigma> \<Longrightarrow> fits \<sigma> v1 \<Longrightarrow> r1 \<noteq> None"
          by (elim exE conjE) (rule that, assumption, blast)
        show ?thesis
        proof (cases r1)
          case (Some m)
          with r1 \<open>assign po v s d = Some v1\<close>
          have "validValues po v s (d # rest) = Some (Inr (Some m))"
            by (simp add: validValues_Cons)
          then show ?thesis by simp
        next
          case None
          with r1 \<open>assign po v s d = Some v1\<close>
          have "validValues po v s (d # rest) = Some (Inr r)"
            by (simp add: validValues_Cons r)
          moreover have "r \<noteq> None" if "is_solution \<sigma>" "fits \<sigma> v" "\<sigma> s \<in> set (d # rest)" for \<sigma>
          proof (cases "\<sigma> s = d")
            case True
            with assign_complete [OF po that(1,2) s(1)] \<open>assign po v s d = Some v1\<close>
            have "fits \<sigma> v1" by auto
            from r1sol [OF that(1) this] None show ?thesis by simp
          next
            case False
            with that rsol show ?thesis by auto
          qed
          ultimately show ?thesis by blast
        qed
      qed
    qed
    from loop [OF subset_refl] obtain r
      where r: "validValues po v s (candidates v s) = Some (Inr r)"
        and rsol: "\<And>\<sigma>. is_solution \<sigma> \<Longrightarrow> fits \<sigma> v \<Longrightarrow> \<sigma> s \<in> set (candidates v s) \<Longrightarrow> r \<noteq> None"
      by (elim exE conjE) (rule that, assumption, blast)
    have "deepSearch po (Some v) = Some (Inr r)"
      using False few r by (simp add: deepSearch_Some)
    moreover have "r \<noteq> None" if "is_solution \<sigma>" "fits \<sigma> v" for \<sigma>
      using rsol [OF that] that(2) s(1) by (simp add: fits_def)
    ultimately show ?thesis by blast
  qed
qed

lemma squares_in_unit: "\<forall>square \<in> set squares. \<exists>unit \<in> set unitlist. square \<in> set unit"
  by code_simp

lemma solution_digit: "is_solution \<sigma> \<Longrightarrow> square \<in> set squares \<Longrightarrow> \<sigma> square \<in> set digits"
  using squares_in_unit by (fastforce simp: is_solution_def)

lemma fits_fresh: "is_solution \<sigma> \<Longrightarrow> fits \<sigma> fresh_values"
  by (auto simp: fits_def candidates_fresh solution_digit)

lemma good_fresh: "good fresh_values"
  by (simp add: good_def candidates_fresh digits_def)

lemma parseGrid_items_complete:
  assumes "iterates_peers po" "is_solution \<sigma>"
  shows "fits \<sigma> v \<Longrightarrow>
         \<forall>(square, c) \<in> set items. square \<in> set squares \<and> (c \<in> set digits \<longrightarrow> c = \<sigma> square) \<Longrightarrow>
         \<exists>v'. parseGrid_items po v items = Some v' \<and> fits \<sigma> v'"
proof (induction items arbitrary: v)
  case Nil
  then show ?case by simp
next
  case (Cons item items)
  obtain square c where item: "item = (square, c)" by (cases item)
  show ?case
  proof (cases "c \<in> set digits")
    case False
    with Cons item show ?thesis by simp
  next
    case True
    with Cons.prems(2) item have sq: "square \<in> set squares" and c: "c = \<sigma> square" by auto
    from assign_complete [OF assms Cons.prems(1) sq] obtain v1
      where v1: "assign po v square (\<sigma> square) = Some v1" "fits \<sigma> v1" .
    from Cons.IH [OF v1(2)] Cons.prems(2) obtain v'
      where "parseGrid_items po v1 items = Some v'" "fits \<sigma> v'" by auto
    with True item c v1(1) show ?thesis
      by (simp add: assignPosibleValues_assign)
  qed
qed

lemma parseGrid_items_given:
  "parseGrid_items po v items = Some v' \<Longrightarrow> (square, c) \<in> set items \<Longrightarrow> c \<in> set digits \<Longrightarrow>
   set (candidates v' square) \<subseteq> {c}"
proof (induction po v items rule: parseGrid_items.induct)
  case (1 po "values")
  then show ?case by simp
next
  case (2 po "values" sq digit rest)
  show ?case
  proof (cases "(square, c) = (sq, digit)")
    case True
    with 2(3,5) obtain v1 where v1: "assign po values square c = Some v1"
      and rest: "parseGrid_items po v1 rest = Some v'"
      by (auto simp: assignPosibleValues_assign split: option.splits)
    from narrowsD(1) [OF parseGrid_items_narrows [OF rest]] assign_only [OF v1]
    show ?thesis by blast
  next
    case False
    with 2 show ?thesis
      by (auto split: if_splits option.splits)
  qed
qed

section \<open>Solutions of a grid\<close>

lemma squares_facts: "distinct squares" "length squares = 81"
  by code_simp+

lemma squares_sorted: "sorted_wrt (<) squares"
  by code_simp

lemma easy_solves: "solves easy_grid easy_solution"
  by code_simp

lemma easy_solution_solves: "solves easy_solution easy_solution"
  by code_simp

lemma iterates_peers_list: "iterates_peers peers_list"
  by (auto simp: iterates_peers_def peers_list_def peers_def)

lemma iterates_peers_rev: "iterates_peers (\<lambda>square. rev (peers_list square))"
  by (auto simp: iterates_peers_def peers_list_def peers_def)


lemma getGridValues_ok:
  "length (filter accepted grid) = 81 \<Longrightarrow>
   getGridValues grid = Inr (zip squares (filter accepted grid))"
  by (simp add: getGridValues_accepted)

lemma solve_SomeE:
  assumes "solve po grid = Some (Inr (Some m))"
  obtains v where "length (filter accepted grid) = 81"
    "parseGrid_items po fresh_values (zip squares (filter accepted grid)) = Some v"
    "deepSearch po (Some v) = Some (Inr (Some m))"
proof (cases "length (filter accepted grid) = 81")
  case False
  then have "parseGrid po grid = Inl AssertionError"
    by (simp add: parseGrid_def getGridValues_accepted)
  with assms show ?thesis by (simp add: solve_def)
next
  case True
  from assms getGridValues_ok [OF True] that [OF True] show ?thesis
    by (cases "parseGrid_items po fresh_values (zip squares (filter accepted grid))")
       (auto simp: solve_def parseGrid_def)
qed

lemma solve_finds:
  assumes po: "iterates_peers po" and len: "length (filter accepted grid) = 81"
    and sol: "solves grid sol"
  shows "\<exists>m. solve po grid = Some (Inr (Some m))"
proof -
  let ?items = "zip squares (filter accepted grid)"
  from sol have is_sol: "is_solution (cell sol)" by (simp add: solves_def)
  have "\<forall>(square, c) \<in> set ?items.
          square \<in> set squares \<and> (c \<in> set digits \<longrightarrow> c = cell sol square)"
    using sol by (auto simp: solves_def dest: set_zip_leftD)
  from parseGrid_items_complete [OF po is_sol fits_fresh [OF is_sol] this]
  obtain v where v: "parseGrid_items po fresh_values ?items = Some v" and fits: "fits (cell sol) v"
    by blast
  from good_narrows [OF good_fresh parseGrid_items_narrows [OF v]] have "good v" .
  from search_total [OF po this] is_sol fits
  obtain m where "deepSearch po (Some v) = Some (Inr (Some m))" by fastforce
  with v getGridValues_ok [OF len] show ?thesis
    by (simp add: solve_def parseGrid_def)
qed

lemma cell_read_off:
  "square \<in> set squares \<Longrightarrow> cell (read_off m) square = hd (candidates m square)"
  by (simp add: cell_def read_off_def map_of_zip_map)

lemma solve_solves:
  assumes m: "solve po grid = Some (Inr (Some m))" and po: "iterates_peers po"
  shows "solves grid (read_off m)"
proof -
  from m obtain v where len: "length (filter accepted grid) = 81"
    and v: "parseGrid_items po fresh_values (zip squares (filter accepted grid)) = Some v"
    and d: "deepSearch po (Some v) = Some (Inr (Some m))"
    by (rule solve_SomeE)
  note units = solved_units [OF solve_sound [OF m po]]
  have one: "candidates m s = [cell (read_off m) s]" "cell (read_off m) s \<in> set digits"
    if "s \<in> set squares" for s
    using units(1) that by (auto simp: cell_read_off)
  have "is_solution (cell (read_off m))"
    unfolding is_solution_def
  proof (intro ballI equalityI subsetI)
    fix unit x assume u: "unit \<in> set unitlist" and "x \<in> cell (read_off m) ` set unit"
    with unitlist_facts one(2) show "x \<in> set digits" by auto
  next
    fix unit x assume u: "unit \<in> set unitlist" and x: "x \<in> set digits"
    from units(2) u x have "filter (\<lambda>square. candidates m square = [x]) unit \<noteq> []"
      by (metis length_0_conv zero_neq_one)
    then obtain s where s: "s \<in> set unit" "candidates m s = [x]"
      by (auto simp: filter_empty_conv)
    with unitlist_facts u have "s \<in> set squares" by auto
    with s(2) have "cell (read_off m) s = x" by (simp add: cell_read_off)
    with s(1) show "x \<in> cell (read_off m) ` set unit" by auto
  qed
  moreover have "cell (read_off m) square = c"
    if "(square, c) \<in> set (zip squares (filter accepted grid))" "c \<in> set digits" for square c
  proof -
    from that(1) have sq: "square \<in> set squares" by (rule set_zip_leftD)
    from parseGrid_items_given [OF v that] narrowsD(1) [OF deepSearch_sound(1) [OF d po]]
    have "set (candidates m square) \<subseteq> {c}" by blast
    with one(1) [OF sq] show ?thesis by simp
  qed
  ultimately show ?thesis
    by (auto simp: solves_def read_off_def squares_facts)
qed

lemma alist_eqI:
  "map fst a = map fst b \<Longrightarrow> distinct (map fst a) \<Longrightarrow>
   \<forall>k \<in> set (map fst a). candidates a k = candidates b k \<Longrightarrow> a = b"
proof (induction a arbitrary: b)
  case Nil
  then show ?case by simp
next
  case (Cons x a)
  from Cons.prems(1) obtain y b' where b: "b = y # b'" "fst x = fst y" "map fst a = map fst b'"
    by (cases b) auto
  from Cons.prems(3) b have "snd x = snd y"
    by (force simp: candidates_def)
  with b(2) have xy: "x = y" by (simp add: prod_eq_iff)
  have "\<forall>k \<in> set (map fst a). candidates a k = candidates b' k"
  proof
    fix k assume k: "k \<in> set (map fst a)"
    with Cons.prems(2) have "k \<noteq> fst x" by (auto simp: image_iff)
    with Cons.prems(3) k b xy show "candidates a k = candidates b' k"
      by (force simp: candidates_def)
  qed
  with Cons.IH [OF b(3)] Cons.prems(2) have "a = b'" by simp
  with xy b(1) show ?case by simp
qed

lemma solve_keys:
  assumes "solve po grid = Some (Inr (Some m))" and "iterates_peers po"
  shows "map fst m = squares"
  using narrowsD(3) [OF solve_sound(1) [OF assms]]
  by (simp add: fresh_values_def comp_def)

lemma solved_single:
  assumes "solve po grid = Some (Inr (Some m))" and "iterates_peers po" and "square \<in> set squares"
  shows "candidates m square = [hd (candidates m square)]"
  using solved_units(1) [OF solve_sound [OF assms(1,2)]] assms(3) by auto

lemma solve_same:
  assumes m1: "solve po1 grid = Some (Inr (Some m1))" and po1: "iterates_peers po1"
    and m2: "solve po2 grid = Some (Inr (Some m2))" and po2: "iterates_peers po2"
    and uniq: "\<And>sol sol'. solves grid sol \<Longrightarrow> solves grid sol' \<Longrightarrow> sol = sol'"
  shows "m1 = m2"
proof (rule alist_eqI)
  show "map fst m1 = map fst m2"
    by (simp add: solve_keys [OF m1 po1] solve_keys [OF m2 po2])
  show "distinct (map fst m1)"
    by (simp add: solve_keys [OF m1 po1] squares_facts)
  from uniq [OF solve_solves [OF m1 po1] solve_solves [OF m2 po2]]
  have eq: "read_off m1 = read_off m2" .
  show "\<forall>k \<in> set (map fst m1). candidates m1 k = candidates m2 k"
  proof
    fix k assume "k \<in> set (map fst m1)"
    then have k: "k \<in> set squares" by (simp add: solve_keys [OF m1 po1])
    from eq k have "hd (candidates m1 k) = hd (candidates m2 k)"
      by (simp add: read_off_def)
    with solved_single [OF m1 po1 k] solved_single [OF m2 po2 k]
    show "candidates m1 k = candidates m2 k" by simp
  qed
qed

lemma sorted_pairs: "sorted_wrt (<) (map fst xs) \<Longrightarrow> sorted (xs :: (string \<times> string) list)"
  by (induction xs) (auto simp: less_eq_prod_def)

lemma snd_candidates:
  "distinct (map fst m) \<Longrightarrow> map snd m = map (candidates m) (map fst m)"
proof (induction m)
  case Nil
  then show ?case by simp
next
  case (Cons x m)
  have "candidates (x # m) k = candidates m k" if "k \<in> set (map fst m)" for k
    using that Cons.prems by (auto simp: candidates_def image_iff)
  with Cons show ?case by (simp add: candidates_def)
qed

lemma dictList_squares:
  assumes "map fst m = squares"
  shows "dictList m = map (candidates m) squares"
proof -
  from assms squares_sorted have "sorted m" by (simp add: sorted_pairs)
  then have "sort m = m" by (rule sorted_sort_id)
  with snd_candidates [of m] assms squares_facts show ?thesis
    by (simp add: dictList_def)
qed

lemma full_grid_unique:
  assumes len: "length grid = 81" and dig: "set grid \<subseteq> set digits" and sol: "solves grid sol"
  shows "sol = grid"
proof (rule nth_equalityI)
  from sol len show "length sol = length grid" by (simp add: solves_def)
next
  fix i assume "i < length sol"
  with sol have i: "i < 81" by (simp add: solves_def)
  from dig have acc: "filter accepted grid = grid"
    by (auto simp: accepted_def filter_id_conv)
  from i len squares_facts have "(squares ! i, grid ! i) \<in> set (zip squares grid)"
    by (auto simp: set_zip)
  moreover from i len dig have "grid ! i \<in> set digits" by auto
  ultimately have "cell sol (squares ! i) = grid ! i"
    using sol acc by (auto simp: solves_def)
  moreover from sol i squares_facts have "map_of (zip squares sol) (squares ! i) = Some (sol ! i)"
    by (intro map_of_zip_nth) (auto simp: solves_def)
  ultimately show "sol ! i = grid ! i" by (simp add: cell_def)
qed

lemma duplicate_givens_fail:
  assumes po: "iterates_peers po" and len: "length (filter accepted grid) = 81"
    and g1: "(s1, c) \<in> set (zip squares (filter accepted grid))"
    and g2: "(s2, c) \<in> set (zip squares (filter accepted grid))"
    and c: "c \<in> set digits" and peer: "s2 \<in> peers s1"
  shows "solve po grid = Some (Inr None)"
proof -
  let ?items = "zip squares (filter accepted grid)"
  have "parseGrid_items po fresh_values ?items = None"
  proof (rule ccontr)
    assume "parseGrid_items po fresh_values ?items \<noteq> None"
    then obtain v where v: "parseGrid_items po fresh_values ?items = Some v" by auto
    from good_narrows [OF good_fresh parseGrid_items_narrows [OF v]] have good: "good v" .
    from g1 g2 have sq: "s1 \<in> set squares" "s2 \<in> set squares" by (auto dest: set_zip_leftD)
    have only: "set (candidates v s1) \<subseteq> {c}" "set (candidates v s2) \<subseteq> {c}"
      using parseGrid_items_given [OF v _ c] g1 g2 by auto
    from good sq have ne: "candidates v s1 \<noteq> []" "candidates v s2 \<noteq> []"
      and dist: "distinct (candidates v s1)"
      by (auto simp: good_def)
    from only(1) ne(1) dist have "candidates v s1 = [c]"
      by (cases "candidates v s1"; cases "tl (candidates v s1)") auto
    with parseGrid_items_keeps_apart [OF po settled_apart_fresh v] peer
    have "c \<notin> set (candidates v s2)" by (auto simp: settled_apart_def)
    with only(2) ne(2) show False by (cases "candidates v s2") auto
  qed
  with getGridValues_ok [OF len] show ?thesis
    by (simp add: solve_def parseGrid_def)
qed

section \<open>Peer and unit propagation\<close>

lemma unit_checks_Nil [simp]: "unit_checks po d v [] v' = (v' = v)"
  by (auto elim: unit_checks.cases intro: unit_checks.intros)

lemma unit_checks_Cons:
  "unit_checks po d v (unit # rest) v' =
     (case filter (\<lambda>square. d \<in> set (candidates v square)) unit of
        [] \<Rightarrow> False
      | [place] \<Rightarrow> (\<exists>v1. assign po v place d = Some v1 \<and> unit_checks po d v1 rest v')
      | _ \<Rightarrow> unit_checks po d v rest v')"
proof
  assume "unit_checks po d v (unit # rest) v'"
  then show "case filter (\<lambda>square. d \<in> set (candidates v square)) unit of
        [] \<Rightarrow> False
      | [place] \<Rightarrow> (\<exists>v1. assign po v place d = Some v1 \<and> unit_checks po d v1 rest v')
      | _ \<Rightarrow> unit_checks po d v rest v'"
    by (cases rule: unit_checks.cases) (auto split: list.splits)
next
  assume r: "case filter (\<lambda>square. d \<in> set (candidates v square)) unit of
        [] \<Rightarrow> False
      | [place] \<Rightarrow> (\<exists>v1. assign po v place d = Some v1 \<and> unit_checks po d v1 rest v')
      | _ \<Rightarrow> unit_checks po d v rest v'"
  show "unit_checks po d v (unit # rest) v'"
  proof (cases "filter (\<lambda>square. d \<in> set (candidates v square)) unit")
    case Nil
    with r show ?thesis by simp
  next
    case (Cons place more)
    show ?thesis
    proof (cases more)
      case Nil
      with Cons r show ?thesis by (auto intro: one_place)
    next
      case (Cons p2 more2)
      with \<open>filter (\<lambda>square. d \<in> set (candidates v square)) unit = place # more\<close> r
      show ?thesis by (auto intro: more_places)
    qed
  qed
qed

lemma reviewUnit_units_checks:
  "(reviewUnit_units po v us d = Some v') = unit_checks po d v us v'"
  by (induction us arbitrary: v)
     (auto simp: unit_checks_Cons reviewUnit_units.simps split: list.splits option.splits)

lemma places_narrow:
  assumes "narrows v w"
  shows "subseq (filter (\<lambda>c. d \<in> set (candidates w c)) unit)
                (filter (\<lambda>c. d \<in> set (candidates v c)) unit)"
proof -
  have "filter (\<lambda>c. d \<in> set (candidates w c)) unit
        = filter (\<lambda>c. d \<in> set (candidates w c)) (filter (\<lambda>c. d \<in> set (candidates v c)) unit)"
    using narrowsD(1) [OF assms] by (auto intro!: filter_cong)
  then show ?thesis by (metis subseq_filter_left)
qed

lemma reviewUnit_units_none_left:
  assumes "unit \<in> set us" and "\<forall>c \<in> set unit. d \<notin> set (candidates v c)"
  shows "reviewUnit_units po v us d = None"
  using assms
proof (induction us arbitrary: v)
  case Nil
  then show ?case by simp
next
  case (Cons u us)
  show ?case
  proof (cases "filter (\<lambda>square. d \<in> set (candidates v square)) u")
    case Nil
    then show ?thesis by (simp add: reviewUnit_units.simps)
  next
    case places: (Cons place more)
    then have "u \<noteq> unit" using Cons.prems(2) by (auto simp: filter_empty_conv)
    with Cons.prems(1) have mem: "unit \<in> set us" by simp
    have later: "reviewUnit_units po w us d = None" if "narrows v w" for w
      using Cons.IH [OF mem] Cons.prems(2) narrowsD(1) [OF that] by blast
    show ?thesis
    proof (cases more)
      case Nil
      with places later show ?thesis
        by (auto simp: reviewUnit_units.simps split: option.splits dest: assign_narrows)
    next
      case (Cons p2 more2)
      with places later [OF narrows_refl] show ?thesis
        by (simp add: reviewUnit_units.simps)
    qed
  qed
qed

lemma reviewUnit_units_single:
  assumes "reviewUnit_units po v us d = Some v'" and "unit \<in> set us"
    and "subseq (filter (\<lambda>c. d \<in> set (candidates v c)) unit) [place]"
  shows "set (candidates v' place) = {d}"
  using assms
proof (induction us arbitrary: v)
  case Nil
  then show ?case by simp
next
  case (Cons u us)
  let ?places = "\<lambda>w x. filter (\<lambda>c. d \<in> set (candidates w c)) x"
  have later: "set (candidates v' place) = {d}"
    if "narrows v w" "reviewUnit_units po w us d = Some v'" "unit \<in> set us" for w
  proof -
    from places_narrow [OF that(1)] Cons.prems(3)
    have "subseq (?places w unit) [place]" by (rule subseq_order.trans)
    from Cons.IH [OF that(2,3) this] show ?thesis .
  qed
  show ?case
  proof (cases "?places v u")
    case Nil
    with Cons.prems(1) show ?thesis by (simp add: reviewUnit_units.simps)
  next
    case places: (Cons p more)
    show ?thesis
    proof (cases more)
      case Nil
      with places Cons.prems(1) obtain v1 where v1: "assign po v p d = Some v1"
        and rest: "reviewUnit_units po v1 us d = Some v'"
        by (auto simp: reviewUnit_units.simps split: option.splits)
      show ?thesis
      proof (cases "u = unit")
        case True
        with places Nil Cons.prems(3) have "subseq [p] [place]" by simp
        from subseq_singleton_cases [OF this] have p: "p = place" by simp
        from places have "p \<in> set (?places v u)" by simp
        then have "d \<in> set (candidates v p)" by simp
        then have "candidates v p \<noteq> []" by auto
        with narrowsD(2) [OF narrows_trans [OF assign_narrows [OF v1] reviewUnit_units_narrows [OF rest]]]
        have "candidates v' p \<noteq> []" by blast
        moreover from assign_only [OF v1] narrowsD(1) [OF reviewUnit_units_narrows [OF rest]]
        have "set (candidates v' p) \<subseteq> {d}" by blast
        ultimately show ?thesis using p
          by (cases "candidates v' p") auto
      next
        case False
        with Cons.prems(2) have "unit \<in> set us" by simp
        from later [OF assign_narrows [OF v1] rest this] show ?thesis .
      qed
    next
      case (Cons p2 more2)
      with places Cons.prems(1) have rest: "reviewUnit_units po v us d = Some v'"
        by (simp add: reviewUnit_units.simps)
      have "u \<noteq> unit"
      proof
        assume "u = unit"
        with places Cons Cons.prems(3) have "subseq (p # p2 # more2) [place]" by simp
        from list_emb_length [OF this] show False by simp
      qed
      with Cons.prems(2) have "unit \<in> set us" by simp
      from later [OF narrows_refl rest this] show ?thesis .
    qed
  qed
qed

lemma reviewNextDigit_single:
  "candidates v s = [d] \<Longrightarrow> reviewNextDigit po v s = eliminate_peers po v (po s) d"
  by (simp add: reviewNextDigit.simps)

lemma reviewNextDigit_empty:
  "candidates v s = [] \<Longrightarrow> reviewNextDigit po v s = None"
  by (simp add: reviewNextDigit.simps)

lemma eliminate_present:
  "digit \<in> set (candidates values square) \<Longrightarrow>
   eliminate po values square digit =
     (case reviewNextDigit po
             (AList.update square (replace (candidates values square) digit) values) square of
        None \<Rightarrow> None
      | Some values' \<Rightarrow> reviewUnit po values' square digit)"
  by (simp add: eliminate.simps)

lemma fits_update:
  "fits \<sigma> v \<Longrightarrow> set ds \<subseteq> set digits \<Longrightarrow> (k \<in> set squares \<longrightarrow> \<sigma> k \<in> set ds) \<Longrightarrow>
   fits \<sigma> (AList.update k ds v)"
  by (auto simp: fits_def)

lemma candidates_tabulate:
  "candidates (map (\<lambda>k. (k, f k)) ks) k = (if k \<in> set ks then f k else [])"
  by (simp add: candidates_def map_of_tabulate)

lemma easy_is_solution: "is_solution (cell easy_solution)"
  using easy_solves by (simp add: solves_def)

lemma validValues_skip:
  "\<forall>d \<in> set tried. deepSearch po (assign po v s d) = Some (Inr None) \<Longrightarrow>
   validValues po v s (tried @ ds) = validValues po v s ds"
  by (induction tried) (simp_all add: validValues_Cons)

lemma forced_set:
  assumes "assign po v s d = Some v'" and "d \<in> set (candidates v s)"
  shows "set (candidates v' s) = {d}"
proof -
  from assms(2) have "candidates v s \<noteq> []" by auto
  from narrowsD(2) [OF assign_narrows [OF assms(1)] this] have "candidates v' s \<noteq> []" .
  with assign_only [OF assms(1)] show ?thesis
    by (cases "candidates v' s") auto
qed

lemma singleton_list: "set xs = {d} \<Longrightarrow> distinct xs \<Longrightarrow> xs = [d]"
  by (cases xs; cases "tl xs") auto

lemma forced_list:
  assumes "assign po v s d = Some v'" and "d \<in> set (candidates v s)"
    and "distinct (candidates v s)"
  shows "candidates v' s = [d]"
proof -
  from subseq_distinct [OF narrowsD(4) [OF assign_narrows [OF assms(1)]] assms(3)]
  have "distinct (candidates v' s)" .
  with forced_set [OF assms(1,2)] show ?thesis by (rule singleton_list)
qed

lemma forced_peers:
  assumes "assign po v s d = Some v'" and "d \<in> set (candidates v s)"
    and "distinct (candidates v s)" and "iterates_peers po" and "settled_apart {} v"
    and "peer \<in> peers s"
  shows "d \<notin> set (candidates v' peer)"
  using assign_keeps_apart [OF assms(4,5,1)] forced_list [OF assms(1,2,3)] assms(6)
  by (auto simp: settled_apart_def)

lemma fewest_fresh: "fewest fresh_values = Some (9, ''A1'')"
  by code_simp

lemma validValues_SomeE:
  assumes "validValues po v s ds = Some (Inr (Some m))"
  obtains tried digit rest where "ds = tried @ digit # rest"
    "\<forall>d \<in> set tried. deepSearch po (assign po v s d) = Some (Inr None)"
    "deepSearch po (assign po v s digit) = Some (Inr (Some m))"
  using assms
proof (induction ds arbitrary: thesis)
  case Nil
  then show ?case by simp
next
  case (Cons d ds)
  from Cons.prems(2) obtain e where e: "deepSearch po (assign po v s d) = Some e"
    and r: "(case e of Inl err \<Rightarrow> Some (Inl err)
              | Inr None \<Rightarrow> validValues po v s ds
              | Inr (Some sol) \<Rightarrow> Some (Inr (Some sol))) = Some (Inr (Some m))"
    by (auto simp: validValues_Cons bind_eq_Some_conv)
  show ?case
  proof (cases e)
    case (Inl err)
    with r show ?thesis by simp
  next
    case (Inr mo)
    show ?thesis
    proof (cases mo)
      case None
      with Inr r have "validValues po v s ds = Some (Inr (Some m))" by simp
      from Cons.IH [OF _ this] obtain tried digit rest where t: "ds = tried @ digit # rest"
        "\<forall>d \<in> set tried. deepSearch po (assign po v s d) = Some (Inr None)"
        "deepSearch po (assign po v s digit) = Some (Inr (Some m))"
        by blast
      from e Inr None t(2) have "\<forall>x \<in> set (d # tried).
          deepSearch po (assign po v s x) = Some (Inr None)" by simp
      with Cons.prems(1) [of "d # tried" digit rest] t(1,3) show ?thesis by simp
    next
      case (Some m')
      with Inr r e have "deepSearch po (assign po v s d) = Some (Inr (Some m))" by simp
      with Cons.prems(1) [of "[]" d ds] show ?thesis by simp
    qed
  qed
qed

lemma validValues_NoneD:
  "validValues po v s ds = Some (Inr None) \<Longrightarrow>
   \<forall>d \<in> set ds. deepSearch po (assign po v s d) = Some (Inr None)"
proof (induction ds)
  case Nil
  then show ?case by simp
next
  case (Cons d ds)
  from Cons.prems obtain e where e: "deepSearch po (assign po v s d) = Some e"
    and r: "(case e of Inl err \<Rightarrow> Some (Inl err)
              | Inr None \<Rightarrow> validValues po v s ds
              | Inr (Some sol) \<Rightarrow> Some (Inr (Some sol))) = Some (Inr None)"
    by (auto simp: validValues_Cons bind_eq_Some_conv)
  show ?case
  proof (cases e)
    case (Inl err)
    with r show ?thesis by simp
  next
    case (Inr mo)
    show ?thesis
    proof (cases mo)
      case None
      with Inr r e Cons.IH show ?thesis by simp
    next
      case (Some m')
      with Inr r show ?thesis by simp
    qed
  qed
qed

lemma deepSearch_assign_Some:
  assumes "deepSearch po (assign po v s d) = Some (Inr (Some m))"
  obtains v1 where "assign po v s d = Some v1" "deepSearch po (Some v1) = Some (Inr (Some m))"
  using assms by (cases "assign po v s d") auto


section \<open>Properties of the topology\<close>

text \<open>
  Claim C8. In the topology built by the constructor, every one of the 81 squares has
  exactly 20 peers, and no square is a peer of itself.
\<close>

theorem peers_card_20:
  "\<forall>square \<in> set squares. card (peers square) = 20 \<and> square \<notin> peers square"
  by code_simp

theorem peers_card_20_witness:
  "''E5'' \<in> set squares \<and> card (peers ''E5'') = 20 \<and> ''E5'' \<notin> peers ''E5''"
proof -
  have mem: "''E5'' \<in> set squares"
    by code_simp
  from peers_card_20 mem show ?thesis
    by blast
qed

section \<open>The grid parser\<close>

text \<open>
  Claim C4, as amended. The parser fails (with the assertion of \<^verbatim>\<open>getGridValues\<close>) exactly
  when the number of characters of the string that belong to the alphabet (digits 1-9,
  \<^verbatim>\<open>0\<close> and \<^verbatim>\<open>.\<close>) is not 81. Characters outside the alphabet are dropped before
  the count, so the length of the string itself does not decide.
\<close>

theorem parseGrid_fails_iff:
  "(parseGrid po grid = Inl AssertionError) = (length (filter accepted grid) \<noteq> 81)"
  by (simp add: parseGrid_def getGridValues_accepted)

text \<open>
  The claim as stated fails on a string of 82 characters, 81 dots followed by a letter:
  its length is not 81 and it has a character outside the alphabet, yet it is parsed.
\<close>

theorem parseGrid_length_counterexample:
  "length ''.................................................................................x'' \<noteq> 81
   \<and> parseGrid peers_list
        ''.................................................................................x''
       \<noteq> Inl AssertionError"
  by (simp add: parseGrid_def getGridValues_def digits_def)

section \<open>Assignment\<close>

text \<open>
  Claim C7. Assigning a digit to a square eliminates every other candidate digit of the
  square, one at a time and in the order of the candidate string: the assignment returns
  a map exactly when all these eliminations succeed in turn, and then it is the map the
  last one returned; otherwise it signals the contradiction. The map it returns is the
  one handed in with candidates removed, and the square is forced to the digit: no other
  digit is left there, and if the digit was a candidate it is the only one left (with
  the digit gone from all peers, on a map whose determined squares were already
  propagated). The \<open>assign\<close> that \<^verbatim>\<open>reviewUnit\<close> and \<^verbatim>\<open>deepSearch\<close> call is the same
  operation.
\<close>

theorem assignPosibleValues_forces:
  "((assignPosibleValues po values square digit = Some values') =
      eliminations po values
        (map (Pair square) (filter (\<lambda>d. d \<noteq> digit) (candidates values square))) values')
   \<and> ((assignPosibleValues po values square digit = None) =
      (\<nexists>values'. eliminations po values
        (map (Pair square) (filter (\<lambda>d. d \<noteq> digit) (candidates values square))) values'))
   \<and> assign po values square digit = assignPosibleValues po values square digit
   \<and> (assignPosibleValues po values square digit = Some values' \<longrightarrow>
        narrows values values' \<and>
        set (candidates values' square) \<subseteq> {digit} \<and>
        (\<forall>d \<in> set (candidates values square). d \<noteq> digit \<longrightarrow> d \<notin> set (candidates values' square)) \<and>
        (digit \<in> set (candidates values square) \<longrightarrow> set (candidates values' square) = {digit}) \<and>
        (digit \<in> set (candidates values square) \<longrightarrow> distinct (candidates values square) \<longrightarrow>
           candidates values' square = [digit] \<and>
           (iterates_peers po \<longrightarrow> settled_apart {} values \<longrightarrow>
              (\<forall>peer \<in> peers square. digit \<notin> set (candidates values' peer)))))"
proof -
  have chain: "(assignPosibleValues po values square digit = Some v') =
      eliminations po values
        (map (Pair square) (filter (\<lambda>d. d \<noteq> digit) (candidates values square))) v'" for v'
    by (simp add: assignPosibleValues_def replace_def eliminate_digits_eliminations)
  have none: "(assignPosibleValues po values square digit = None) =
      (\<nexists>values'. eliminations po values
        (map (Pair square) (filter (\<lambda>d. d \<noteq> digit) (candidates values square))) values')"
    using chain by (cases "assignPosibleValues po values square digit") auto
  have same: "assign po values square digit = assignPosibleValues po values square digit"
    by (simp add: assignPosibleValues_assign)
  have forced: "narrows values values' \<and>
        set (candidates values' square) \<subseteq> {digit} \<and>
        (\<forall>d \<in> set (candidates values square). d \<noteq> digit \<longrightarrow> d \<notin> set (candidates values' square)) \<and>
        (digit \<in> set (candidates values square) \<longrightarrow> set (candidates values' square) = {digit}) \<and>
        (digit \<in> set (candidates values square) \<longrightarrow> distinct (candidates values square) \<longrightarrow>
           candidates values' square = [digit] \<and>
           (iterates_peers po \<longrightarrow> settled_apart {} values \<longrightarrow>
              (\<forall>peer \<in> peers square. digit \<notin> set (candidates values' peer))))"
    if "assignPosibleValues po values square digit = Some values'"
  proof -
    from that have a: "assign po values square digit = Some values'"
      by (simp add: assignPosibleValues_assign)
    have only: "set (candidates values' square) \<subseteq> {digit}" by (rule assign_only [OF a])
    then have others: "\<forall>d \<in> set (candidates values square). d \<noteq> digit \<longrightarrow>
                         d \<notin> set (candidates values' square)" by auto
    show ?thesis
      using assign_narrows [OF a] only others forced_set [OF a] forced_list [OF a]
        forced_peers [OF a] by blast
  qed
  from chain none same forced show ?thesis by blast
qed

theorem assignPosibleValues_forces_witness:
  "\<exists>values'. assignPosibleValues peers_list fresh_values ''A1'' CHR ''4'' = Some values' \<and>
      eliminations peers_list fresh_values
        (map (Pair ''A1'') (filter (\<lambda>d. d \<noteq> CHR ''4'') (candidates fresh_values ''A1''))) values' \<and>
      filter (\<lambda>d. d \<noteq> CHR ''4'') (candidates fresh_values ''A1'') = ''12356789'' \<and>
      candidates values' ''A1'' = ''4'' \<and>
      (\<forall>peer \<in> peers ''A1''. CHR ''4'' \<notin> set (candidates values' peer))"
proof -
  have a1: "''A1'' \<in> set squares" by code_simp
  have c4: "cell easy_solution ''A1'' = CHR ''4''" by code_simp
  from assign_complete [OF iterates_peers_list easy_is_solution fits_fresh [OF easy_is_solution] a1]
  obtain v' where "assign peers_list fresh_values ''A1'' CHR ''4'' = Some v'"
    by (auto simp: c4)
  then have v': "assignPosibleValues peers_list fresh_values ''A1'' CHR ''4'' = Some v'"
    by (simp add: assignPosibleValues_assign)
  note inst = assignPosibleValues_forces [of peers_list fresh_values "''A1''" "CHR ''4''" v']
  from inst [THEN conjunct1, THEN iffD1, OF v']
  have chain: "eliminations peers_list fresh_values
        (map (Pair ''A1'') (filter (\<lambda>d. d \<noteq> CHR ''4'') (candidates fresh_values ''A1''))) v'" .
  have others: "filter (\<lambda>d. d \<noteq> CHR ''4'') (candidates fresh_values ''A1'') = ''12356789''"
    by (simp add: candidates_fresh a1 digits_def)
  have mem: "CHR ''4'' \<in> set (candidates fresh_values ''A1'')"
    and dist: "distinct (candidates fresh_values ''A1'')"
    by (simp_all add: candidates_fresh a1 digits_def)
  note f = inst [THEN conjunct2, THEN conjunct2, THEN conjunct2, THEN mp, OF v',
      THEN conjunct2, THEN conjunct2, THEN conjunct2, THEN conjunct2, THEN mp, OF mem,
      THEN mp, OF dist]
  from f [THEN conjunct1] have single: "candidates v' ''A1'' = ''4''" .
  from f [THEN conjunct2, THEN mp, OF iterates_peers_list, THEN mp, OF settled_apart_fresh]
  have peers: "\<forall>peer \<in> peers ''A1''. CHR ''4'' \<notin> set (candidates v' peer)" .
  from v' chain others single peers show ?thesis by (intro exI [of _ v'] conjI)
qed

text \<open>
  Claim C10, as amended. If the digit is not among the candidates of the square and the
  square has at least one candidate, the assignment signals a contradiction.
\<close>

theorem assignPosibleValues_absent_fails:
  "digit \<notin> set (candidates values square) \<Longrightarrow> candidates values square \<noteq> [] \<Longrightarrow>
   assignPosibleValues po values square digit = None"
  by (simp add: assignPosibleValues_assign assign_absent_fails)

theorem assignPosibleValues_absent_fails_witness:
  "CHR ''1'' \<notin> set (candidates (AList.update ''A1'' ''23'' fresh_values) ''A1'')
   \<and> candidates (AList.update ''A1'' ''23'' fresh_values) ''A1'' \<noteq> []
   \<and> assignPosibleValues peers_list (AList.update ''A1'' ''23'' fresh_values) ''A1'' CHR ''1'' = None"
  using assignPosibleValues_absent_fails
    [of "CHR ''1''" "AList.update ''A1'' ''23'' fresh_values" "''A1''" peers_list]
  by simp

text \<open>
  Without a candidate in the square there is nothing to eliminate, and the assignment
  returns the map as it is: the claim as stated fails there.
\<close>

theorem assignPosibleValues_empty_counterexample:
  "CHR ''1'' \<notin> set (candidates (AList.update ''A1'' '''' fresh_values) ''A1'')
   \<and> assignPosibleValues peers_list (AList.update ''A1'' '''' fresh_values) ''A1'' CHR ''1''
       = Some (AList.update ''A1'' '''' fresh_values)"
  by (simp add: assignPosibleValues_def replace_def)

section \<open>Solved grids\<close>

text \<open>
  Claim C1. Whenever \<^verbatim>\<open>solve\<close> returns a map (not \<^verbatim>\<open>False\<close>), every one of the 81
  squares is determined to a single digit 1-9, and each of the 27 units holds each digit
  in exactly one of its squares.
\<close>

theorem solve_valid:
  assumes "solve po grid = Some (Inr (Some m))" and "iterates_peers po"
  shows "(\<forall>square \<in> set squares. \<exists>digit \<in> set digits. candidates m square = [digit]) \<and>
         (\<forall>unit \<in> set unitlist. \<forall>digit \<in> set digits.
            length (filter (\<lambda>square. candidates m square = [digit]) unit) = 1)"
  using solved_units [OF solve_sound [OF assms]] by blast

theorem solve_valid_witness:
  "\<exists>m. solve peers_list easy_grid = Some (Inr (Some m)) \<and> iterates_peers peers_list \<and>
       (\<forall>square \<in> set squares. \<exists>digit \<in> set digits. candidates m square = [digit]) \<and>
       (\<forall>unit \<in> set unitlist. \<forall>digit \<in> set digits.
          length (filter (\<lambda>square. candidates m square = [digit]) unit) = 1)"
proof -
  have "length (filter accepted easy_grid) = 81" by code_simp
  from solve_finds [OF iterates_peers_list this easy_solves]
  obtain m where m: "solve peers_list easy_grid = Some (Inr (Some m))" ..
  from solve_valid [OF m iterates_peers_list] m iterates_peers_list show ?thesis by blast
qed

section \<open>Determinism\<close>

text \<open>
  Claim C9. The model of \<^verbatim>\<open>solve\<close> has no source of randomness (\<^verbatim>\<open>shuffled\<close> is
  not called on its path); what may differ between two runs is the order in which the
  peer sets are iterated. For a grid with exactly one solution, two runs with any two
  such orders return the same map, and the digit sequence read from it is that solution.
  Every candidate string on the way is a subsequence of \<^verbatim>\<open>123456789\<close>, so the digits
  of a square are tried in ascending order.
\<close>

theorem solve_deterministic:
  assumes "iterates_peers po1" and "iterates_peers po2"
    and "length (filter accepted grid) = 81" and "\<exists>!sol. solves grid sol"
  shows "\<exists>m. solve po1 grid = Some (Inr (Some m)) \<and> solve po2 grid = Some (Inr (Some m)) \<and>
           (\<forall>sol. solves grid sol \<longrightarrow> dictList m = map (\<lambda>c. [c]) sol) \<and>
           (\<forall>v v'. parseGrid po1 grid = Inr (Some v) \<longrightarrow> narrows v v' \<longrightarrow>
              (\<forall>square. subseq (candidates v' square) digits))"
proof -
  from assms(4) obtain sol where sol: "solves grid sol"
    and uniq: "\<And>s s'. solves grid s \<Longrightarrow> solves grid s' \<Longrightarrow> s = s'" by blast
  from solve_finds [OF assms(1,3) sol] obtain m1
    where m1: "solve po1 grid = Some (Inr (Some m1))" ..
  from solve_finds [OF assms(2,3) sol] obtain m2
    where m2: "solve po2 grid = Some (Inr (Some m2))" ..
  from solve_same [OF m1 assms(1) m2 assms(2) uniq] have eq: "m2 = m1" by simp
  have "dictList m1 = map (\<lambda>c. [c]) s" if "solves grid s" for s
  proof -
    from uniq [OF that solve_solves [OF m1 assms(1)]] have s: "s = read_off m1" .
    have "map (candidates m1) squares = map (\<lambda>c. [c]) (read_off m1)"
      using solved_single [OF m1 assms(1)] by (simp add: read_off_def)
    with dictList_squares [OF solve_keys [OF m1 assms(1)]] s show ?thesis by simp
  qed
  moreover have "subseq (candidates v' square) digits"
    if "parseGrid po1 grid = Inr (Some v)" "narrows v v'" for v v' square
  proof -
    from that(1) getGridValues_ok [OF assms(3)]
    have "parseGrid_items po1 fresh_values (zip squares (filter accepted grid)) = Some v"
      by (simp add: parseGrid_def)
    from narrows_trans [OF parseGrid_items_narrows [OF this] that(2)]
    have "subseq (candidates v' square) (candidates fresh_values square)"
      by (rule narrowsD(4))
    then show ?thesis by (auto simp: candidates_fresh split: if_splits dest: list_emb_Nil2)
  qed
  ultimately show ?thesis using m1 m2 eq by blast
qed

theorem solve_deterministic_witness:
  "iterates_peers peers_list \<and> iterates_peers (\<lambda>square. rev (peers_list square)) \<and>
   length (filter accepted easy_solution) = 81 \<and> (\<exists>!sol. solves easy_solution sol) \<and>
   (\<exists>m. solve peers_list easy_solution = Some (Inr (Some m)) \<and>
        solve (\<lambda>square. rev (peers_list square)) easy_solution = Some (Inr (Some m)) \<and>
        dictList m = map (\<lambda>c. [c]) easy_solution)"
proof -
  have len: "length (filter accepted easy_solution) = 81" by code_simp
  have len': "length easy_solution = 81" and dig: "set easy_solution \<subseteq> set digits"
    by code_simp+
  have ex1: "\<exists>!sol. solves easy_solution sol"
    using easy_solution_solves full_grid_unique [OF len' dig] by blast
  from solve_deterministic [OF iterates_peers_list iterates_peers_rev len ex1]
    easy_solution_solves iterates_peers_list iterates_peers_rev len ex1
  show ?thesis by blast
qed

section \<open>Reporting an unsolvable grid\<close>

text \<open>
  Claim C2 asks that solving a well-formed grid and reporting the result gives either 81
  digits or an explicit failure value, and never aborts on a grid that merely has no
  solution. The code does not do so: for the grid with the digit 1 in both A1 and A2,
  \<^verbatim>\<open>solve\<close> returns \<^verbatim>\<open>False\<close>, and \<^verbatim>\<open>getMatrix\<close> then raises \<^verbatim>\<open>TypeError\<close>.
\<close>

theorem timeSolve_unsolvable_aborts:
  "timeSolve peers_list convertStringToMatrix solved
     ''11...............................................................................''
   = Some (Inl TypeError)"
proof -
  let ?grid = "''11...............................................................................''"
  have len: "length (filter accepted ?grid) = 81" by code_simp
  have g1: "(''A1'', CHR ''1'') \<in> set (zip squares (filter accepted ?grid))" by code_simp
  have g2: "(''A2'', CHR ''1'') \<in> set (zip squares (filter accepted ?grid))" by code_simp
  have c: "CHR ''1'' \<in> set digits" by code_simp
  have p: "''A2'' \<in> peers ''A1''" by code_simp
  from duplicate_givens_fail [OF iterates_peers_list len g1 g2 c p]
  show ?thesis by (simp add: timeSolve_def getMatrix_def)
qed

section \<open>Elimination\<close>

text \<open>
  Claim C6. Eliminating a digit that is not a candidate of the square leaves the map as
  it is. Otherwise the digit is removed from the square's candidates: if none is left,
  the result is the contradiction; if exactly one digit \<open>d\<close> is left, \<open>d\<close> is
  eliminated from the peers of the square, one after the other, a failure among these
  eliminations makes the whole call fail, and after a successful call no peer has \<open>d\<close>
  as a candidate. A successful call never leaves the eliminated digit in the square.
\<close>

theorem eliminate_cases:
  assumes "iterates_peers po"
  shows
  "(digit \<notin> set (candidates values square) \<longrightarrow> eliminate po values square digit = Some values) \<and>
   (digit \<in> set (candidates values square) \<longrightarrow>
      (replace (candidates values square) digit = [] \<longrightarrow>
         eliminate po values square digit = None) \<and>
      (\<forall>d. replace (candidates values square) digit = [d] \<longrightarrow>
         (\<forall>values'. eliminate po values square digit = Some values' \<longrightarrow>
            (\<exists>values2. eliminations po (AList.update square [d] values)
                           (map (\<lambda>peer. (peer, d)) (po square)) values2 \<and>
                        reviewUnit po values2 square digit = Some values') \<and>
            (\<forall>peer \<in> peers square. d \<notin> set (candidates values' peer))) \<and>
         ((\<nexists>values2. eliminations po (AList.update square [d] values)
                         (map (\<lambda>peer. (peer, d)) (po square)) values2) \<longrightarrow>
            eliminate po values square digit = None)) \<and>
      (\<forall>values'. eliminate po values square digit = Some values' \<longrightarrow>
         set (candidates values' square) \<subseteq> set (candidates values square) - {digit}))"
proof -
  have absent: "eliminate po values square digit = Some values"
    if "digit \<notin> set (candidates values square)"
    using that by (simp add: eliminate.simps)
  have emptied: "eliminate po values square digit = None"
    if "digit \<in> set (candidates values square)" "replace (candidates values square) digit = []"
    using that by (simp add: eliminate_present reviewNextDigit_empty)
  have cascade: "(\<exists>values2. eliminations po (AList.update square [d] values)
                           (map (\<lambda>peer. (peer, d)) (po square)) values2 \<and>
                        reviewUnit po values2 square digit = Some values') \<and>
            (\<forall>peer \<in> peers square. d \<notin> set (candidates values' peer))"
    if mem: "digit \<in> set (candidates values square)"
      and d: "replace (candidates values square) digit = [d]"
      and r: "eliminate po values square digit = Some values'" for d values'
  proof -
    let ?v1 = "AList.update square [d] values"
    from r mem d obtain v2 where v2: "eliminate_peers po ?v1 (po square) d = Some v2"
      and u: "reviewUnit po v2 square digit = Some values'"
      by (auto simp: eliminate_present reviewNextDigit_single split: option.splits)
    have "d \<notin> set (candidates values' peer)" if "peer \<in> peers square" for peer
    proof -
      from that assms have "peer \<in> set (po square)" by (simp add: iterates_peers_def)
      from eliminate_peers_removes [OF v2 this] narrowsD(1) [OF reviewUnit_narrows [OF u]]
      show ?thesis by blast
    qed
    moreover from v2 have "eliminations po ?v1 (map (\<lambda>peer. (peer, d)) (po square)) v2"
      by (simp add: eliminate_peers_eliminations)
    ultimately show ?thesis using u by blast
  qed
  have failing: "eliminate po values square digit = None"
    if mem: "digit \<in> set (candidates values square)"
      and d: "replace (candidates values square) digit = [d]"
      and no: "\<nexists>values2. eliminations po (AList.update square [d] values)
                          (map (\<lambda>peer. (peer, d)) (po square)) values2" for d
  proof -
    from no have "eliminate_peers po (AList.update square [d] values) (po square) d = None"
      by (cases "eliminate_peers po (AList.update square [d] values) (po square) d")
         (auto simp: eliminate_peers_eliminations)
    with mem d show ?thesis
      by (simp add: eliminate_present reviewNextDigit_single)
  qed
  have removed: "set (candidates values' square) \<subseteq> set (candidates values square) - {digit}"
    if r: "eliminate po values square digit = Some values'" for values'
    using eliminate_removes [OF r] narrowsD(1) [OF eliminate_narrows [OF r]] by blast
  show ?thesis
  proof (intro conjI impI allI)
    show "eliminate po values square digit = Some values"
      if "digit \<notin> set (candidates values square)"
      using that by (rule absent)
    show "eliminate po values square digit = None"
      if "digit \<in> set (candidates values square)" "replace (candidates values square) digit = []"
      using that by (rule emptied)
    show "\<exists>values2. eliminations po (AList.update square [d] values)
                           (map (\<lambda>peer. (peer, d)) (po square)) values2 \<and>
                        reviewUnit po values2 square digit = Some values'"
      if "digit \<in> set (candidates values square)" "replace (candidates values square) digit = [d]"
        "eliminate po values square digit = Some values'" for d values'
      using cascade [OF that] by (rule conjunct1)
    show "\<forall>peer \<in> peers square. d \<notin> set (candidates values' peer)"
      if "digit \<in> set (candidates values square)" "replace (candidates values square) digit = [d]"
        "eliminate po values square digit = Some values'" for d values'
      using cascade [OF that] by (rule conjunct2)
    show "eliminate po values square digit = None"
      if "digit \<in> set (candidates values square)" "replace (candidates values square) digit = [d]"
        "\<nexists>values2. eliminations po (AList.update square [d] values)
                          (map (\<lambda>peer. (peer, d)) (po square)) values2" for d
      using that by (rule failing)
    show "set (candidates values' square) \<subseteq> set (candidates values square) - {digit}"
      if "digit \<in> set (candidates values square)"
        "eliminate po values square digit = Some values'" for values'
      using that(2) by (rule removed)
  qed
qed

theorem eliminate_cases_witness:
  "iterates_peers peers_list \<and>
   CHR ''8'' \<in> set (candidates (AList.update ''A1'' ''48'' fresh_values) ''A1'') \<and>
   replace (candidates (AList.update ''A1'' ''48'' fresh_values) ''A1'') CHR ''8'' = [CHR ''4''] \<and>
   (\<exists>values'. eliminate peers_list (AList.update ''A1'' ''48'' fresh_values) ''A1'' CHR ''8''
                  = Some values' \<and>
               (\<forall>peer \<in> peers ''A1''. CHR ''4'' \<notin> set (candidates values' peer)) \<and>
               set (candidates values' ''A1'') \<subseteq> {CHR ''4''})"
proof -
  let ?v0 = "AList.update ''A1'' ''48'' fresh_values"
  have a1: "''A1'' \<in> set squares" by code_simp
  have c4: "cell easy_solution ''A1'' = CHR ''4''" by code_simp
  have "fits (cell easy_solution) ?v0"
    by (rule fits_update [OF fits_fresh [OF easy_is_solution]]) (simp_all add: digits_def c4)
  with propagate_complete(3) [of peers_list "cell easy_solution" ?v0 "''A1''" "CHR ''8''"]
    iterates_peers_list easy_is_solution a1 c4
  obtain v' where v': "eliminate peers_list ?v0 ''A1'' CHR ''8'' = Some v'"
    by (auto simp: succeeds_def)
  have mem: "CHR ''8'' \<in> set (candidates ?v0 ''A1'')" by simp
  have rest: "replace (candidates ?v0 ''A1'') CHR ''8'' = [CHR ''4'']"
    by (simp add: replace_def)
  note inst = eliminate_cases [OF iterates_peers_list, of "CHR ''8''" ?v0 "''A1''",
      THEN conjunct2, THEN mp, OF mem]
  from inst [THEN conjunct2, THEN conjunct1, THEN spec, THEN mp, OF rest,
      THEN conjunct1, THEN spec, THEN mp, OF v', THEN conjunct2]
  have p: "\<forall>peer \<in> peers ''A1''. CHR ''4'' \<notin> set (candidates v' peer)" .
  from inst [THEN conjunct2, THEN conjunct2, THEN spec, THEN mp, OF v']
  have "set (candidates v' ''A1'') \<subseteq> set (candidates ?v0 ''A1'') - {CHR ''8''}" .
  then have q: "set (candidates v' ''A1'') \<subseteq> {CHR ''4''}" by auto
  show ?thesis
    by (intro conjI exI [of _ v'] iterates_peers_list mem rest v' p q)
qed

text \<open>
  Claim C3. After \<^verbatim>\<open>eliminate\<close> has removed a digit from a square (\<open>values1\<close> is the
  map right after the removal): if some unit of the square has no square left where the
  digit is a candidate, the call signals the contradiction; if a unit has exactly one
  such square, a successful call has assigned the digit there; and the call succeeds
  exactly when the peer propagation succeeds and then every unit of the square, in turn,
  has a place for the digit and the assignment to a single place succeeds, so a failing
  assignment is a contradiction of the whole call.
\<close>

theorem reviewUnit_cases:
  assumes "digit \<in> set (candidates values square)"
    and "values1 = AList.update square (replace (candidates values square) digit) values"
  shows
  "((\<exists>unit \<in> set (units square). \<forall>c \<in> set unit. digit \<notin> set (candidates values1 c)) \<longrightarrow>
      eliminate po values square digit = None) \<and>
   (\<forall>values' unit place.
      eliminate po values square digit = Some values' \<longrightarrow> unit \<in> set (units square) \<longrightarrow>
      filter (\<lambda>c. digit \<in> set (candidates values1 c)) unit = [place] \<longrightarrow>
      set (candidates values' place) = {digit}) \<and>
   (\<forall>values'. (eliminate po values square digit = Some values') =
      (\<exists>values2. reviewNextDigit po values1 square = Some values2 \<and>
                  unit_checks po digit values2 (units square) values'))"
proof (intro conjI impI allI)
  assume "\<exists>unit \<in> set (units square). \<forall>c \<in> set unit. digit \<notin> set (candidates values1 c)"
  then obtain unit where u: "unit \<in> set (units square)"
    and none: "\<forall>c \<in> set unit. digit \<notin> set (candidates values1 c)" by blast
  show "eliminate po values square digit = None"
  proof (cases "reviewNextDigit po values1 square")
    case None
    with assms show ?thesis by (simp add: eliminate_present)
  next
    case (Some v2)
    from none narrowsD(1) [OF reviewNextDigit_narrows [OF Some]]
    have "\<forall>c \<in> set unit. digit \<notin> set (candidates v2 c)" by blast
    from reviewUnit_units_none_left [OF u this] Some assms show ?thesis
      by (simp add: eliminate_present reviewUnit.simps)
  qed
next
  fix values' unit place
  assume r: "eliminate po values square digit = Some values'" and u: "unit \<in> set (units square)"
    and one: "filter (\<lambda>c. digit \<in> set (candidates values1 c)) unit = [place]"
  from r assms obtain v2 where v2: "reviewNextDigit po values1 square = Some v2"
    and ru: "reviewUnit_units po v2 (units square) digit = Some values'"
    by (auto simp: eliminate_present reviewUnit.simps split: option.splits)
  from places_narrow [OF reviewNextDigit_narrows [OF v2], of digit unit] one
  have "subseq (filter (\<lambda>c. digit \<in> set (candidates v2 c)) unit) [place]" by simp
  from reviewUnit_units_single [OF ru u this]
  show "set (candidates values' place) = {digit}" .
next
  fix values'
  show "(eliminate po values square digit = Some values') =
      (\<exists>values2. reviewNextDigit po values1 square = Some values2 \<and>
                  unit_checks po digit values2 (units square) values')"
    using assms
    by (auto simp: eliminate_present reviewUnit.simps reviewUnit_units_checks
             split: option.splits)
qed

theorem reviewUnit_cases_witness:
  "CHR ''8'' \<in> set (candidates fresh_values ''A1'') \<and>
   (\<exists>values' values2.
      eliminate peers_list fresh_values ''A1'' CHR ''8'' = Some values' \<and>
      reviewNextDigit peers_list
        (AList.update ''A1'' (replace (candidates fresh_values ''A1'') CHR ''8'') fresh_values) ''A1''
         = Some values2 \<and>
      unit_checks peers_list CHR ''8'' values2 (units ''A1'') values') \<and>
   CHR ''8'' \<in> set (candidates
      (AList.update ''A1'' ''12345678'' (map (\<lambda>square. (square, ''1234567'')) squares)) ''A1'') \<and>
   eliminate peers_list
      (AList.update ''A1'' ''12345678'' (map (\<lambda>square. (square, ''1234567'')) squares))
      ''A1'' CHR ''8'' = None"
proof -
  let ?w = "AList.update ''A1'' ''12345678'' (map (\<lambda>square. (square, ''1234567'')) squares)"
  have wmem: "CHR ''8'' \<in> set (candidates ?w ''A1'')" by simp
  have "units ''A1'' \<noteq> []" by code_simp
  then obtain unit where unit: "unit \<in> set (units ''A1'')"
    by (cases "units ''A1''") auto
  have "CHR ''8'' \<notin> set (candidates
          (AList.update ''A1'' (replace (candidates ?w ''A1'') CHR ''8'') ?w) c)" for c
    by (simp add: replace_def candidates_tabulate)
  with unit have "\<exists>unit \<in> set (units ''A1''). \<forall>c \<in> set unit. CHR ''8'' \<notin> set (candidates
          (AList.update ''A1'' (replace (candidates ?w ''A1'') CHR ''8'') ?w) c)"
    by blast
  with reviewUnit_cases [OF wmem refl, of peers_list, THEN conjunct1]
  have zero: "eliminate peers_list ?w ''A1'' CHR ''8'' = None" by (rule mp)
  have a1: "''A1'' \<in> set squares" by code_simp
  have c4: "cell easy_solution ''A1'' = CHR ''4''" by code_simp
  have mem: "CHR ''8'' \<in> set (candidates fresh_values ''A1'')"
    by (simp add: candidates_fresh a1 digits_def)
  from propagate_complete(3) [of peers_list "cell easy_solution" fresh_values "''A1''" "CHR ''8''"]
    iterates_peers_list easy_is_solution fits_fresh [OF easy_is_solution] a1 c4
  obtain v' where v': "eliminate peers_list fresh_values ''A1'' CHR ''8'' = Some v'"
    by (auto simp: succeeds_def)
  from reviewUnit_cases [OF mem refl, of peers_list, THEN conjunct2, THEN conjunct2, THEN spec,
      THEN iffD1, OF v']
  obtain v2 where "reviewNextDigit peers_list
        (AList.update ''A1'' (replace (candidates fresh_values ''A1'') CHR ''8'') fresh_values) ''A1''
         = Some v2" "unit_checks peers_list CHR ''8'' v2 (units ''A1'') v'"
    by (elim exE conjE)
  with v' mem wmem zero show ?thesis by (intro conjI exI [of _ v'] exI [of _ v2])
qed


section \<open>The search step\<close>

text \<open>
  Claim C5. On a map with at least one square of two or more candidates, the search picks
  a square with the fewest candidates among those with at least two (of several, the one
  whose name comes first), and tries its candidate digits in the order of the candidate
  string, each assigned on the map as it was handed in. The result is that of the first
  digit whose recursive search succeeds, all earlier ones having failed, and it is the
  contradiction if every digit fails. Conversely, a map that the search returns comes
  from such a first digit: the assignment of that digit succeeded, the recursive search
  on the assigned map returned it, it is solved, it only removes candidates, and the
  chosen square holds that digit; and a returned contradiction means that every digit
  failed. On a map where every square has a candidate and no digit twice, the search
  returns, every assignment it tries leaves a smaller map of the same kind, and it
  finds a solved map whenever some solution still fits the map.
\<close>

theorem deepSearch_branches:
  assumes "\<exists>square \<in> set squares. 2 \<le> length (candidates values square)"
    and "iterates_peers po"
  shows "\<exists>n square.
     fewest values = Some (n, square) \<and> square \<in> set squares \<and>
     n = length (candidates values square) \<and> 2 \<le> n \<and>
     (\<forall>s \<in> set squares. 2 \<le> length (candidates values s) \<longrightarrow>
        n \<le> length (candidates values s) \<and> (length (candidates values s) = n \<longrightarrow> square \<le> s)) \<and>
     deepSearch po (Some values) = validValues po values square (candidates values square) \<and>
     (\<forall>tried digit rest m. candidates values square = tried @ digit # rest \<longrightarrow>
        (\<forall>d \<in> set tried. deepSearch po (assign po values square d) = Some (Inr None)) \<longrightarrow>
        deepSearch po (assign po values square digit) = Some (Inr (Some m)) \<longrightarrow>
        deepSearch po (Some values) = Some (Inr (Some m))) \<and>
     ((\<forall>d \<in> set (candidates values square).
          deepSearch po (assign po values square d) = Some (Inr None)) \<longrightarrow>
        deepSearch po (Some values) = Some (Inr None)) \<and>
     (\<forall>m. deepSearch po (Some values) = Some (Inr (Some m)) \<longrightarrow>
        (\<exists>tried digit rest values1.
           candidates values square = tried @ digit # rest \<and>
           (\<forall>d \<in> set tried. deepSearch po (assign po values square d) = Some (Inr None)) \<and>
           assign po values square digit = Some values1 \<and>
           narrows values values1 \<and> set (candidates values1 square) = {digit} \<and>
           deepSearch po (Some values1) = Some (Inr (Some m)) \<and>
           narrows values1 m \<and> solved_map m \<and> set (candidates m square) = {digit})) \<and>
     (deepSearch po (Some values) = Some (Inr None) \<longrightarrow>
        (\<forall>d \<in> set (candidates values square).
           deepSearch po (assign po values square d) = Some (Inr None))) \<and>
     (good values \<longrightarrow>
        (\<exists>r. deepSearch po (Some values) = Some (Inr r)) \<and>
        (\<forall>d \<in> set (candidates values square). \<forall>values1.
           assign po values square d = Some values1 \<longrightarrow>
           weight values1 < weight values \<and> good values1) \<and>
        (\<forall>\<sigma>. is_solution \<sigma> \<longrightarrow> fits \<sigma> values \<longrightarrow>
           (\<exists>m. deepSearch po (Some values) = Some (Inr (Some m)))))"
proof -
  from assms(1) obtain s0 where s0: "s0 \<in> set squares" "2 \<le> length (candidates values s0)"
    by blast
  have unsolved: "\<not> solved_map values"
  proof
    assume "solved_map values"
    with s0(1) have "length (candidates values s0) = 1" by (simp add: solved_map_def)
    with s0(2) show False by simp
  qed
  have "fewest values \<noteq> None"
  proof
    assume "fewest values = None"
    from fewest_None [OF this s0(1)] s0(2) show False by simp
  qed
  then obtain n square where few: "fewest values = Some (n, square)" by auto
  note f = fewest_Some [OF few]
  have ds: "deepSearch po (Some values) = validValues po values square (candidates values square)"
    using unsolved few by (simp add: deepSearch_Some)
  have least: "n \<le> length (candidates values s) \<and> (length (candidates values s) = n \<longrightarrow> square \<le> s)"
    if "s \<in> set squares" "2 \<le> length (candidates values s)" for s
    using f(4) [of s] that by (auto simp: less_eq_prod_def)
  have first: "deepSearch po (Some values) = Some (Inr (Some m))"
    if "candidates values square = tried @ digit # rest"
      "\<forall>d \<in> set tried. deepSearch po (assign po values square d) = Some (Inr None)"
      "deepSearch po (assign po values square digit) = Some (Inr (Some m))" for tried digit rest m
    using that by (simp add: ds validValues_skip validValues_Cons)
  have none: "deepSearch po (Some values) = Some (Inr None)"
    if "\<forall>d \<in> set (candidates values square).
          deepSearch po (assign po values square d) = Some (Inr None)"
    using validValues_skip [OF that, of "[]"] by (simp add: ds)
  have found: "\<exists>tried digit rest values1.
           candidates values square = tried @ digit # rest \<and>
           (\<forall>d \<in> set tried. deepSearch po (assign po values square d) = Some (Inr None)) \<and>
           assign po values square digit = Some values1 \<and>
           narrows values values1 \<and> set (candidates values1 square) = {digit} \<and>
           deepSearch po (Some values1) = Some (Inr (Some m)) \<and>
           narrows values1 m \<and> solved_map m \<and> set (candidates m square) = {digit}"
    if "deepSearch po (Some values) = Some (Inr (Some m))" for m
  proof -
    from that ds have "validValues po values square (candidates values square)
        = Some (Inr (Some m))" by simp
    then obtain tried digit rest where t: "candidates values square = tried @ digit # rest"
      "\<forall>d \<in> set tried. deepSearch po (assign po values square d) = Some (Inr None)"
      "deepSearch po (assign po values square digit) = Some (Inr (Some m))"
      by (rule validValues_SomeE)
    from t(3) obtain v1 where v1: "assign po values square digit = Some v1"
      "deepSearch po (Some v1) = Some (Inr (Some m))"
      by (rule deepSearch_assign_Some)
    from t(1) have mem: "digit \<in> set (candidates values square)" by simp
    note forced = forced_set [OF v1(1) mem]
    note sound = deepSearch_sound(1,2) [OF v1(2) assms(2)]
    from forced have "candidates v1 square \<noteq> []" by auto
    from narrowsD(2) [OF sound(1) this] narrowsD(1) [OF sound(1), of square] forced
    have "set (candidates m square) = {digit}"
      by (cases "candidates m square") auto
    with t(1,2) v1 assign_narrows [OF v1(1)] forced sound show ?thesis by blast
  qed
  have failed: "\<forall>d \<in> set (candidates values square).
           deepSearch po (assign po values square d) = Some (Inr None)"
    if "deepSearch po (Some values) = Some (Inr None)"
    using that ds validValues_NoneD by simp
  have total: "(\<exists>r. deepSearch po (Some values) = Some (Inr r)) \<and>
        (\<forall>d \<in> set (candidates values square). \<forall>values1.
           assign po values square d = Some values1 \<longrightarrow>
           weight values1 < weight values \<and> good values1) \<and>
        (\<forall>\<sigma>. is_solution \<sigma> \<longrightarrow> fits \<sigma> values \<longrightarrow>
           (\<exists>m. deepSearch po (Some values) = Some (Inr (Some m))))"
    if good: "good values"
  proof -
    from search_total [OF assms(2) good] obtain r
      where r: "deepSearch po (Some values) = Some (Inr r)"
        and rsol: "\<And>\<sigma>. is_solution \<sigma> \<Longrightarrow> fits \<sigma> values \<Longrightarrow> r \<noteq> None"
      by (elim exE conjE) (rule that, assumption, blast)
    from good f(1) have dist: "distinct (candidates values square)" by (simp add: good_def)
    have smaller: "weight v1 < weight values \<and> good v1"
      if "assign po values square d = Some v1" for d v1
      using assign_weight_less [OF that replace_nonempty [OF f(2) dist]]
        good_narrows [OF good assign_narrows [OF that]] by simp
    have "\<exists>m. deepSearch po (Some values) = Some (Inr (Some m))"
      if "is_solution \<sigma>" "fits \<sigma> values" for \<sigma>
      using rsol [OF that] r by auto
    with r smaller show ?thesis by blast
  qed
  show ?thesis
  proof (intro exI [of _ n] exI [of _ square] conjI)
    show "fewest values = Some (n, square)" by (rule few)
    show "square \<in> set squares" by (rule f(1))
    show "n = length (candidates values square)" by (rule f(3))
    show "2 \<le> n" using f(2,3) by simp
    show "\<forall>s \<in> set squares. 2 \<le> length (candidates values s) \<longrightarrow>
        n \<le> length (candidates values s) \<and> (length (candidates values s) = n \<longrightarrow> square \<le> s)"
      using least by blast
    show "deepSearch po (Some values) = validValues po values square (candidates values square)"
      by (rule ds)
    show "\<forall>tried digit rest m. candidates values square = tried @ digit # rest \<longrightarrow>
        (\<forall>d \<in> set tried. deepSearch po (assign po values square d) = Some (Inr None)) \<longrightarrow>
        deepSearch po (assign po values square digit) = Some (Inr (Some m)) \<longrightarrow>
        deepSearch po (Some values) = Some (Inr (Some m))"
      using first by blast
    show "(\<forall>d \<in> set (candidates values square).
          deepSearch po (assign po values square d) = Some (Inr None)) \<longrightarrow>
        deepSearch po (Some values) = Some (Inr None)"
      using none by blast
    show "\<forall>m. deepSearch po (Some values) = Some (Inr (Some m)) \<longrightarrow>
        (\<exists>tried digit rest values1.
           candidates values square = tried @ digit # rest \<and>
           (\<forall>d \<in> set tried. deepSearch po (assign po values square d) = Some (Inr None)) \<and>
           assign po values square digit = Some values1 \<and>
           narrows values values1 \<and> set (candidates values1 square) = {digit} \<and>
           deepSearch po (Some values1) = Some (Inr (Some m)) \<and>
           narrows values1 m \<and> solved_map m \<and> set (candidates m square) = {digit})"
      using found by (intro allI impI)
    show "deepSearch po (Some values) = Some (Inr None) \<longrightarrow>
        (\<forall>d \<in> set (candidates values square).
           deepSearch po (assign po values square d) = Some (Inr None))"
      using failed by (intro impI)
    show "good values \<longrightarrow>
        (\<exists>r. deepSearch po (Some values) = Some (Inr r)) \<and>
        (\<forall>d \<in> set (candidates values square). \<forall>values1.
           assign po values square d = Some values1 \<longrightarrow>
           weight values1 < weight values \<and> good values1) \<and>
        (\<forall>\<sigma>. is_solution \<sigma> \<longrightarrow> fits \<sigma> values \<longrightarrow>
           (\<exists>m. deepSearch po (Some values) = Some (Inr (Some m))))"
      using total by (intro impI)
  qed
qed


theorem deepSearch_branches_witness:
  "(\<exists>square \<in> set squares. 2 \<le> length (candidates fresh_values square)) \<and>
   iterates_peers peers_list \<and> good fresh_values \<and>
   fewest fresh_values = Some (9, ''A1'') \<and>
   (\<exists>m tried digit rest values1.
      deepSearch peers_list (Some fresh_values) = Some (Inr (Some m)) \<and>
      candidates fresh_values ''A1'' = tried @ digit # rest \<and>
      (\<forall>d \<in> set tried. deepSearch peers_list (assign peers_list fresh_values ''A1'' d)
          = Some (Inr None)) \<and>
      assign peers_list fresh_values ''A1'' digit = Some values1 \<and>
      weight values1 < weight fresh_values \<and>
      deepSearch peers_list (Some values1) = Some (Inr (Some m)) \<and>
      solved_map m \<and> set (candidates m ''A1'') = {digit})"
proof -
  have a1: "''A1'' \<in> set squares" by code_simp
  then have "2 \<le> length (candidates fresh_values ''A1'')"
    by (simp add: candidates_fresh digits_def)
  with a1 have hyp: "\<exists>square \<in> set squares. 2 \<le> length (candidates fresh_values square)"
    by blast
  from deepSearch_branches [OF hyp iterates_peers_list] obtain n square
    where few: "fewest fresh_values = Some (n, square)"
      and found: "\<forall>m. deepSearch peers_list (Some fresh_values) = Some (Inr (Some m)) \<longrightarrow>
        (\<exists>tried digit rest values1.
           candidates fresh_values square = tried @ digit # rest \<and>
           (\<forall>d \<in> set tried. deepSearch peers_list (assign peers_list fresh_values square d)
               = Some (Inr None)) \<and>
           assign peers_list fresh_values square digit = Some values1 \<and>
           narrows fresh_values values1 \<and> set (candidates values1 square) = {digit} \<and>
           deepSearch peers_list (Some values1) = Some (Inr (Some m)) \<and>
           narrows values1 m \<and> solved_map m \<and> set (candidates m square) = {digit})"
      and total: "good fresh_values \<longrightarrow>
        (\<exists>r. deepSearch peers_list (Some fresh_values) = Some (Inr r)) \<and>
        (\<forall>d \<in> set (candidates fresh_values square). \<forall>values1.
           assign peers_list fresh_values square d = Some values1 \<longrightarrow>
           weight values1 < weight fresh_values \<and> good values1) \<and>
        (\<forall>\<sigma>. is_solution \<sigma> \<longrightarrow> fits \<sigma> fresh_values \<longrightarrow>
           (\<exists>m. deepSearch peers_list (Some fresh_values) = Some (Inr (Some m))))"
    by (elim exE conjE) (rule that)
  from few fewest_fresh have sq: "square = ''A1''" by simp
  note t = total [THEN mp, OF good_fresh]
  from t [THEN conjunct2, THEN conjunct2, THEN spec, THEN mp, OF easy_is_solution,
      THEN mp, OF fits_fresh [OF easy_is_solution]]
  obtain m where m: "deepSearch peers_list (Some fresh_values) = Some (Inr (Some m))" ..
  from found [THEN spec, THEN mp, OF m] obtain tried digit rest values1
    where b: "candidates fresh_values square = tried @ digit # rest"
      "\<forall>d \<in> set tried. deepSearch peers_list (assign peers_list fresh_values square d)
          = Some (Inr None)"
      "assign peers_list fresh_values square digit = Some values1"
      "deepSearch peers_list (Some values1) = Some (Inr (Some m))"
      "solved_map m" "set (candidates m square) = {digit}"
    by (elim exE conjE) (rule that)
  from b(1) have "digit \<in> set (candidates fresh_values square)" by simp
  with t [THEN conjunct2, THEN conjunct1] b(3) have w: "weight values1 < weight fresh_values"
    by blast
  show ?thesis
    using hyp iterates_peers_list good_fresh fewest_fresh m b [unfolded sq] w
    by (intro conjI exI [of _ m] exI [of _ tried] exI [of _ digit] exI [of _ rest]
          exI [of _ values1])
qed

end
